theory Spec2Isabelle
  imports Main "HOL-Library.Word"
begin

unbundle bit_operations_syntax

section \<open>Byte buffers and big integers\<close>

type_synonym byte = "8 word"
type_synonym buffer = "byte list"

text \<open>
  Modelled from the spec: \<open>new BN(buf)\<close> / \<open>fromBytesBE\<close> of the vendored big-integer
  library (vendor/bn.js, and OpenSSL's \<open>BN_bin2bn\<close> on the native side), which is not
  part of the sources: the big-endian unsigned value of a byte string, the empty
  string being zero.
\<close>

definition BN :: "buffer \<Rightarrow> nat" where
  "BN buf = foldl (\<lambda>acc b. acc * 256 + unat b) 0 buf"

text \<open>
  Modelled from the spec: \<open>toBytesBE\<close> without a pad length
  (\<open>n.toArrayLike(Buffer, 'be')\<close>, \<open>BN_bn2bin\<close>): the big-endian bytes of a value
  with leading zero bytes trimmed, the empty string for zero.
\<close>

fun toArrayLike :: "nat \<Rightarrow> buffer" where
  "toArrayLike n = (if n = 0 then [] else toArrayLike (n div 256) @ [of_nat (n mod 256)])"

declare toArrayLike.simps [simp del]

text \<open>Modelled from the spec: \<open>bitLength\<close> of the big-integer core (\<open>BN_num_bits\<close>).\<close>

fun bitLength :: "nat \<Rightarrow> nat" where
  "bitLength n = (if n = 0 then 0 else Suc (bitLength (n div 2)))"

declare bitLength.simps [simp del]

text \<open>\<open>BN_num_bytes\<close>: the byte length of a value, \<open>(BN_num_bits(a) + 7) / 8\<close>.\<close>

definition BN_num_bytes :: "nat \<Rightarrow> nat" where
  "BN_num_bytes n = (bitLength n + 7) div 8"

section \<open>The native DSA engine (src/dsa/dsa.c)\<close>

text \<open>
  A \<open>bcrypto_dsa_key_t\<close> holds five (pointer, length) pairs. A pair is modelled as an
  optional buffer: \<open>None\<close> is the \<open>NULL\<close> pointer, and the length is the length of the
  list. Sizes are natural numbers (no \<open>size_t\<close> overflow is reachable at buffer sizes
  that fit in memory). Failing allocations of \<open>malloc\<close> and of OpenSSL's constructors
  are not modelled.
\<close>

record bcrypto_dsa_key_t =
  pd :: "buffer option"
  qd :: "buffer option"
  gd :: "buffer option"
  yd :: "buffer option"
  xd :: "buffer option"

text \<open>The \<open>while (oct) { bits += 1; oct >>= 1; }\<close> loop of \<open>bcrypto_count_bits\<close>.\<close>

fun count_oct :: "nat \<Rightarrow> nat \<Rightarrow> nat" where
  "count_oct oct bits = (if oct = 0 then bits else count_oct (oct div 2) (bits + 1))"

declare count_oct.simps [simp del]

definition bcrypto_count_bits :: "buffer option \<Rightarrow> nat" where
  "bcrypto_count_bits inp =
     (case inp of
        None \<Rightarrow> 0
      | Some buf \<Rightarrow>
          (case dropWhile (\<lambda>b. b = 0) buf of
             [] \<Rightarrow> 0
           | b # rest \<Rightarrow> count_oct (unat b) (length (b # rest) * 8 - 8)))"

definition bcrypto_dsa_sane_params :: "bcrypto_dsa_key_t option \<Rightarrow> bool" where
  "bcrypto_dsa_sane_params params =
     (case params of
        None \<Rightarrow> False
      | Some k \<Rightarrow>
          (let pb = bcrypto_count_bits (pd k);
               qb = bcrypto_count_bits (qd k);
               gb = bcrypto_count_bits (gd k)
           in if pb < 1024 \<or> pb > 3072 then False
              else if qb \<noteq> 160 \<and> qb \<noteq> 224 \<and> qb \<noteq> 256 then False
              else if gb = 0 \<or> gb > pb then False
              else True))"

definition bcrypto_dsa_sane_pubkey :: "bcrypto_dsa_key_t option \<Rightarrow> bool" where
  "bcrypto_dsa_sane_pubkey key =
     (if \<not> bcrypto_dsa_sane_params key then False
      else (case key of
              None \<Rightarrow> False
            | Some k \<Rightarrow>
                (let pb = bcrypto_count_bits (pd k);
                     yb = bcrypto_count_bits (yd k)
                 in if yb = 0 \<or> yb > pb then False else True)))"

definition bcrypto_dsa_sane_privkey :: "bcrypto_dsa_key_t option \<Rightarrow> bool" where
  "bcrypto_dsa_sane_privkey key =
     (if \<not> bcrypto_dsa_sane_pubkey key then False
      else (case key of
              None \<Rightarrow> False
            | Some k \<Rightarrow>
                (let qb = bcrypto_count_bits (qd k);
                     xb = bcrypto_count_bits (xd k)
                 in if xb = 0 \<or> xb > qb then False else True)))"

definition bcrypto_dsa_subprime_size :: "bcrypto_dsa_key_t option \<Rightarrow> nat" where
  "bcrypto_dsa_subprime_size key =
     (case key of
        None \<Rightarrow> 0
      | Some k \<Rightarrow> (bcrypto_count_bits (qd k) + 7) div 8)"

text \<open>
  OpenSSL's \<open>DSA\<close> object: the three parameters, and the public and private values,
  each of which may be unset (\<open>NULL\<close>). OpenSSL's \<open>DSA_SIG\<close> is a pair \<open>(r, s)\<close>.
\<close>

record DSA =
  dsa_p :: nat
  dsa_q :: nat
  dsa_g :: nat
  dsa_pub_key :: "nat option"
  dsa_priv_key :: "nat option"

type_synonym DSA_SIG = "nat \<times> nat"

text \<open>\<open>BN_bin2bn(data, len, NULL)\<close>; a \<open>NULL\<close> buffer of length zero is the value zero.\<close>

definition BN_bin2bn :: "buffer option \<Rightarrow> nat" where
  "BN_bin2bn d = (case d of None \<Rightarrow> 0 | Some buf \<Rightarrow> BN buf)"

definition bcrypto_dsa_key2dsa :: "bcrypto_dsa_key_t option \<Rightarrow> int \<Rightarrow> DSA option" where
  "bcrypto_dsa_key2dsa key mode =
     (case key of
        None \<Rightarrow> None
      | Some k \<Rightarrow>
          if mode < 0 \<or> mode > 2 then None
          else Some \<lparr> dsa_p = BN_bin2bn (pd k),
                      dsa_q = BN_bin2bn (qd k),
                      dsa_g = BN_bin2bn (gd k),
                      dsa_pub_key = (if mode > 0 then Some (BN_bin2bn (yd k)) else None),
                      dsa_priv_key = (if mode = 2 then Some (BN_bin2bn (xd k)) else None) \<rparr>)"

definition bcrypto_dsa_key2pub :: "bcrypto_dsa_key_t option \<Rightarrow> DSA option" where
  "bcrypto_dsa_key2pub pub = bcrypto_dsa_key2dsa pub 1"

definition bcrypto_dsa_key2priv :: "bcrypto_dsa_key_t option \<Rightarrow> DSA option" where
  "bcrypto_dsa_key2priv priv = bcrypto_dsa_key2dsa priv 2"

definition bcrypto_dsa_rs2sig :: "buffer \<Rightarrow> buffer \<Rightarrow> DSA_SIG option" where
  "bcrypto_dsa_rs2sig r s = Some (BN r, BN s)"

text \<open>
  OpenSSL's \<open>BN_bn2binpad(a, to, tolen)\<close>: the big-endian bytes of \<open>a\<close> left-padded
  with zero bytes to \<open>tolen\<close> bytes; it returns \<open>tolen\<close>, or \<open>-1\<close> (here \<open>None\<close>) when
  the value does not fit.
\<close>

definition BN_bn2binpad :: "nat \<Rightarrow> nat \<Rightarrow> buffer option" where
  "BN_bn2binpad a tolen =
     (if BN_num_bytes a \<le> tolen
      then Some (replicate (tolen - BN_num_bytes a) 0 @ toArrayLike a)
      else None)"

text \<open>
  A C function here either aborts on a failed \<open>assert\<close>, or returns: \<open>Inl Abort\<close> is
  the abort, \<open>Inr None\<close> the return value \<open>false\<close>, and \<open>Inr (Some out)\<close> the return
  value \<open>true\<close> with the output parameters \<open>out\<close>.
\<close>

datatype c_error = Abort

definition bcrypto_dsa_sig2rs :: "DSA \<Rightarrow> DSA_SIG \<Rightarrow> c_error + (buffer \<times> buffer) option" where
  "bcrypto_dsa_sig2rs priv_d sig_d =
     (let r_bn = fst sig_d;
          s_bn = snd sig_d;
          bits = bitLength (dsa_q priv_d);
          size = (bits + 7) div 8
      in if \<not> BN_num_bytes r_bn \<le> size then Inl Abort
         else if \<not> BN_num_bytes s_bn \<le> size then Inl Abort
         else (case BN_bn2binpad r_bn size of
                 None \<Rightarrow> Inl Abort
               | Some r_buf \<Rightarrow>
                   if \<not> length r_buf > 0 then Inl Abort
                   else (case BN_bn2binpad s_bn size of
                           None \<Rightarrow> Inl Abort
                         | Some s_buf \<Rightarrow>
                             if \<not> length s_buf > 0 then Inl Abort
                             else Inr (Some (r_buf, s_buf)))))"

text \<open>
  \<open>bcrypto_dsa_sign\<close> and \<open>bcrypto_dsa_verify\<close>. The first argument is the build
  switch \<open>OPENSSL_VERSION_NUMBER >= 0x1010008fL\<close>: without it the functions are the
  stubs at the end of the file. OpenSSL's \<open>DSA_do_sign\<close> (which returns \<open>NULL\<close>, here
  \<open>None\<close>, on failure) and \<open>DSA_do_verify\<close> (which returns \<open>1\<close>, \<open>0\<close> or \<open>-1\<close>) are
  parameters. A message is a pointer and a length: \<open>None\<close> is the \<open>NULL\<close> pointer.
\<close>

definition bcrypto_dsa_sign ::
  "bool \<Rightarrow> (buffer \<Rightarrow> DSA \<Rightarrow> DSA_SIG option) \<Rightarrow> buffer option \<Rightarrow> bcrypto_dsa_key_t option
     \<Rightarrow> c_error + (buffer \<times> buffer) option" where
  "bcrypto_dsa_sign have_openssl DSA_do_sign msg priv =
     (if \<not> have_openssl then Inr None
      else (case msg of
              None \<Rightarrow> Inr None
            | Some m \<Rightarrow>
                if length m < 1 \<or> length m > 64 then Inr None
                else if \<not> bcrypto_dsa_sane_privkey priv then Inr None
                else (case bcrypto_dsa_key2priv priv of
                        None \<Rightarrow> Inr None
                      | Some priv_d \<Rightarrow>
                          (case DSA_do_sign m priv_d of
                             None \<Rightarrow> Inr None
                           | Some sig_d \<Rightarrow>
                               (case bcrypto_dsa_sig2rs priv_d sig_d of
                                  Inl e \<Rightarrow> Inl e
                                | Inr None \<Rightarrow> Inr None
                                | Inr (Some (r, s)) \<Rightarrow> Inr (Some (r, s)))))))"

definition bcrypto_dsa_verify ::
  "bool \<Rightarrow> (buffer \<Rightarrow> DSA_SIG \<Rightarrow> DSA \<Rightarrow> int) \<Rightarrow> buffer option \<Rightarrow> buffer option \<Rightarrow> buffer option
     \<Rightarrow> bcrypto_dsa_key_t option \<Rightarrow> bool" where
  "bcrypto_dsa_verify have_openssl DSA_do_verify msg r s pub =
     (if \<not> have_openssl then False
      else (case msg of
              None \<Rightarrow> False
            | Some m \<Rightarrow>
                if length m < 1 \<or> length m > 64 then False
                else
                  (let qsize = bcrypto_dsa_subprime_size pub
                   in case r of
                        None \<Rightarrow> False
                      | Some rb \<Rightarrow>
                          if length rb \<noteq> qsize then False
                          else (case s of
                                  None \<Rightarrow> False
                                | Some sb \<Rightarrow>
                                    if length sb \<noteq> qsize then False
                                    else if \<not> bcrypto_dsa_sane_pubkey pub then False
                                    else (case bcrypto_dsa_key2pub pub of
                                            None \<Rightarrow> False
                                          | Some pub_d \<Rightarrow>
                                              (case bcrypto_dsa_rs2sig rb sb of
                                                 None \<Rightarrow> False
                                               | Some sig_d \<Rightarrow>
                                                   if DSA_do_verify m sig_d pub_d \<le> 0 then False
                                                   else True))))))"

section \<open>Collaborators of the JavaScript sources\<close>

text \<open>
  The JavaScript files call modules that are not part of the sources: the vendored
  big-integer library, \<open>encoding/util\<close>, \<open>encoding/base64\<close>, \<open>internal/dsasig\<close>,
  \<open>internal/rsakey\<close>, \<open>internal/primes\<close>, \<open>random\<close> and the native binding. The first
  four are modelled from the specification below; the primality test, the RSA key
  decoders and the native binding are parameters of the functions that call them.
\<close>

datatype js_error = AssertionError | RangeError string | Error string | DecodeError

subsection \<open>Big-integer arithmetic\<close>

text \<open>
  Modelled from the spec: extended Euclid and \<open>modInverse\<close> (\<open>BN.egcd\<close>, \<open>BN.invm\<close>
  of vendor/bn.js, absent). \<open>egcd a b\<close> returns \<open>(g, x, y)\<close> with \<open>a * x + b * y = g\<close>
  and \<open>g\<close> the greatest common divisor. \<open>modInverse\<close> fails (\<open>no inverse\<close>) when the
  greatest common divisor is not 1, and otherwise reduces the coefficient of \<open>a\<close> into
  \<open>[0, m)\<close>.
\<close>

function egcd :: "int \<Rightarrow> int \<Rightarrow> int \<times> int \<times> int" where
  "egcd a b =
     (if b \<le> 0 then (a, 1, 0)
      else (case egcd b (a mod b) of (g, x, y) \<Rightarrow> (g, y, x - (a div b) * y)))"
  by pat_completeness auto
termination
  by (relation "measure (\<lambda>(a, b). nat b)") (auto simp: pos_mod_bound)

declare egcd.simps [simp del]

definition invm :: "nat \<Rightarrow> nat \<Rightarrow> js_error + nat" where
  "invm a m =
     (case egcd (int a) (int m) of
        (g, x, y) \<Rightarrow> if g \<noteq> 1 then Inl (Error ''no inverse'') else Inr (nat (x mod int m)))"

text \<open>
  \<open>modPow(x, y, m)\<close> of dsa.js is \<open>x.toRed(BN.mont(m)).redPow(y).fromRed()\<close>, the
  Montgomery exponentiation of the big-integer library (vendor/bn.js, absent).
  \<open>BN.mont(m)\<close> builds the reduction context of the modulus and refuses a modulus that
  is not greater than 1. Modelled from the spec (\<open>modPow\<close>, in Montgomery form): the
  value is \<open>x\<close> to the power \<open>y\<close> modulo \<open>m\<close>. Montgomery reduction needs an odd modulus
  (the context holds the inverse of \<open>m\<close> modulo a power of 2), as the prime moduli \<open>p\<close>
  and \<open>q\<close> of a DSA key are; the spec does not say what the library computes at an even
  modulus, and the value here is the library's for an odd modulus only.
\<close>

definition BN_mont :: "nat \<Rightarrow> js_error + nat" where
  "BN_mont m = (if m \<le> 1 then Inl (Error ''modulus must be greater than 1'') else Inr m)"

definition modPow :: "nat \<Rightarrow> nat \<Rightarrow> nat \<Rightarrow> js_error + nat" where
  "modPow x y m =
     (case BN_mont m of
        Inl e \<Rightarrow> Inl e
      | Inr ctx \<Rightarrow> Inr (x ^ y mod ctx))"

text \<open>\<open>fermatInverse(k, p)\<close> is \<open>modPow(k, p.subn(2), p)\<close>.\<close>

definition fermatInverse :: "nat \<Rightarrow> nat \<Rightarrow> js_error + nat" where
  "fermatInverse k p = modPow k (p - 2) p"

definition toBuffer :: "nat \<Rightarrow> buffer" where
  "toBuffer n = toArrayLike n"

subsection \<open>The random source\<close>

text \<open>
  The random source is an infinite tape of bytes, read from a position that every
  call advances: \<open>random.randomFill(buf, 0, n)\<close> fills \<open>buf\<close> with the next \<open>n\<close> bytes.
  A function that draws random bytes takes the tape and the position, and returns
  the new position with its result.
\<close>

type_synonym tape = "nat \<Rightarrow> byte"

definition randomFill :: "tape \<Rightarrow> nat \<Rightarrow> nat \<Rightarrow> buffer" where
  "randomFill rnd pos n = map rnd [pos..<pos + n]"

subsection \<open>Buffer utilities and base64\<close>

text \<open>
  Modelled from the spec: \<open>trimLeft\<close> and \<open>countLeft\<close> of encoding/util (absent).
  \<open>trimLeft\<close> strips the leading zero bytes (an absent argument gives the empty
  buffer), \<open>countLeft\<close> reports the bit length of the buffer's value.
\<close>

definition trimLeft :: "buffer option \<Rightarrow> buffer" where
  "trimLeft data = (case data of None \<Rightarrow> [] | Some buf \<Rightarrow> dropWhile (\<lambda>b. b = 0) buf)"

definition countLeft :: "buffer \<Rightarrow> nat" where
  "countLeft data = bitLength (BN data)"

text \<open>A buffer is canonical when it has no leading zero byte; the empty buffer is zero.\<close>

definition canonical :: "buffer \<Rightarrow> bool" where
  "canonical buf = (case buf of [] \<Rightarrow> True | b # rest \<Rightarrow> b \<noteq> 0)"

text \<open>
  Modelled from the spec: the URL-safe base64 codec of encoding/base64 (absent), RFC
  4648 section 5: the table \<open>A-Z a-z 0-9 - _\<close>, no padding on encode, and a decoder
  that rejects every character outside the table. The padding character \<open>=\<close> is
  outside the table: the repository's tests (\<open>urlInvalid\<close>) require \<open>decodeURL\<close> to
  throw on \<open>Zg==\<close>, \<open>Zm8=\<close>, \<open>Zm9vYg==\<close> and \<open>Zm9vYmE=\<close>.
\<close>

definition url_table :: string where
  "url_table = ''ABCDEFGHIJKLMNOPQRSTUVWXYZabcdefghijklmnopqrstuvwxyz0123456789-_''"

definition enc_char :: "nat \<Rightarrow> char" where
  "enc_char i = url_table ! i"

fun index_of :: "char \<Rightarrow> string \<Rightarrow> nat option" where
  "index_of c [] = None"
| "index_of c (x # xs) = (if c = x then Some 0 else map_option Suc (index_of c xs))"

definition dec_char :: "char \<Rightarrow> nat option" where
  "dec_char c = index_of c url_table"

fun encode_groups :: "nat list \<Rightarrow> string" where
  "encode_groups (a # b # c # rest) =
     enc_char (a div 4) # enc_char ((a mod 4) * 16 + b div 16)
       # enc_char ((b mod 16) * 4 + c div 64) # enc_char (c mod 64) # encode_groups rest"
| "encode_groups [a, b] =
     [enc_char (a div 4), enc_char ((a mod 4) * 16 + b div 16), enc_char ((b mod 16) * 4)]"
| "encode_groups [a] = [enc_char (a div 4), enc_char ((a mod 4) * 16)]"
| "encode_groups [] = []"

definition encodeURL :: "buffer \<Rightarrow> string" where
  "encodeURL data = encode_groups (map unat data)"

fun decode_groups :: "nat list \<Rightarrow> (nat list) option" where
  "decode_groups (a # b # c # d # rest) =
     map_option (\<lambda>out. (a * 4 + b div 16) # ((b mod 16) * 16 + c div 4) # ((c mod 4) * 64 + d) # out)
       (decode_groups rest)"
| "decode_groups [a, b, c] = Some [a * 4 + b div 16, (b mod 16) * 16 + c div 4]"
| "decode_groups [a, b] = Some [a * 4 + b div 16]"
| "decode_groups [a] = None"
| "decode_groups [] = Some []"

fun decode_chars :: "string \<Rightarrow> (nat list) option" where
  "decode_chars [] = Some []"
| "decode_chars (c # cs) =
     (case dec_char c of
        None \<Rightarrow> None
      | Some i \<Rightarrow> map_option (\<lambda>is. i # is) (decode_chars cs))"

definition decodeURL :: "string option \<Rightarrow> js_error + buffer" where
  "decodeURL str =
     (case str of
        None \<Rightarrow> Inl AssertionError
      | Some s \<Rightarrow>
          (case decode_chars s of
             None \<Rightarrow> Inl DecodeError
           | Some sextets \<Rightarrow>
               (case decode_groups sextets of
                  None \<Rightarrow> Inl DecodeError
                | Some out \<Rightarrow> Inr (map of_nat out))))"

subsection \<open>DSA signatures\<close>

text \<open>
  Modelled from the spec: the \<open>DSASignature\<close> class of internal/dsasig (absent): a
  pair \<open>(r, s)\<close> of buffers of the size given at construction, which \<open>setR\<close> and \<open>setS\<close>
  fill with their argument left-padded with zero bytes.
\<close>

record DSASignature =
  sig_size :: nat
  sig_r :: buffer
  sig_s :: buffer

definition leftPad :: "buffer \<Rightarrow> nat \<Rightarrow> buffer" where
  "leftPad data len = replicate (len - length data) 0 @ data"

definition new_DSASignature :: "nat \<Rightarrow> DSASignature" where
  "new_DSASignature len = \<lparr> sig_size = len, sig_r = replicate len 0, sig_s = replicate len 0 \<rparr>"

definition setR :: "DSASignature \<Rightarrow> buffer \<Rightarrow> DSASignature" where
  "setR sg r = sg \<lparr> sig_r := leftPad r (sig_size sg) \<rparr>"

definition setS :: "DSASignature \<Rightarrow> buffer \<Rightarrow> DSASignature" where
  "setS sg s = sg \<lparr> sig_s := leftPad s (sig_size sg) \<rparr>"

section \<open>DSA key objects (lib/internal/dsakey.js)\<close>

text \<open>
  The classes \<open>DSAParams\<close>, \<open>DSAKey\<close> and \<open>DSAPrivateKey\<close> are records that extend each
  other as the classes do; \<open>DSAPublicKey\<close> adds no field to \<open>DSAKey\<close>. The fields
  \<open>p\<close>, \<open>q\<close>, \<open>g\<close>, \<open>y\<close>, \<open>x\<close> are named \<open>key_p\<close> ... \<open>key_x\<close>.
\<close>

record DSAParams =
  key_p :: buffer
  key_q :: buffer
  key_g :: buffer

record DSAKey = DSAParams +
  key_y :: buffer

type_synonym DSAPublicKey = DSAKey

record DSAPrivateKey = DSAKey +
  key_x :: buffer

text \<open>A JSON object as \<open>fromJSON\<close> reads it: \<open>kty\<close> and the fields, each possibly absent.\<close>

record dsa_json =
  json_kty :: "string option"
  json_p :: "string option"
  json_q :: "string option"
  json_g :: "string option"
  json_y :: "string option"
  json_x :: "string option"

definition new_DSAParams :: "buffer option \<Rightarrow> buffer option \<Rightarrow> buffer option \<Rightarrow> DSAParams" where
  "new_DSAParams p q g = \<lparr> key_p = trimLeft p, key_q = trimLeft q, key_g = trimLeft g \<rparr>"

definition new_DSAKey ::
  "buffer option \<Rightarrow> buffer option \<Rightarrow> buffer option \<Rightarrow> buffer option \<Rightarrow> DSAKey" where
  "new_DSAKey p q g y =
     \<lparr> key_p = trimLeft p, key_q = trimLeft q, key_g = trimLeft g, key_y = trimLeft y \<rparr>"

definition new_DSAPublicKey ::
  "buffer option \<Rightarrow> buffer option \<Rightarrow> buffer option \<Rightarrow> buffer option \<Rightarrow> DSAPublicKey" where
  "new_DSAPublicKey p q g y = new_DSAKey p q g y"

definition new_DSAPrivateKey ::
  "buffer option \<Rightarrow> buffer option \<Rightarrow> buffer option \<Rightarrow> buffer option \<Rightarrow> buffer option
     \<Rightarrow> DSAPrivateKey" where
  "new_DSAPrivateKey p q g y x =
     \<lparr> key_p = trimLeft p, key_q = trimLeft q, key_g = trimLeft g, key_y = trimLeft y,
       key_x = trimLeft x \<rparr>"

definition setP :: "'a DSAParams_scheme \<Rightarrow> buffer option \<Rightarrow> 'a DSAParams_scheme" where
  "setP this p = this \<lparr> key_p := trimLeft p \<rparr>"

definition setQ :: "'a DSAParams_scheme \<Rightarrow> buffer option \<Rightarrow> 'a DSAParams_scheme" where
  "setQ this q = this \<lparr> key_q := trimLeft q \<rparr>"

definition setG :: "'a DSAParams_scheme \<Rightarrow> buffer option \<Rightarrow> 'a DSAParams_scheme" where
  "setG this g = this \<lparr> key_g := trimLeft g \<rparr>"

definition setY :: "'a DSAKey_scheme \<Rightarrow> buffer option \<Rightarrow> 'a DSAKey_scheme" where
  "setY this y = this \<lparr> key_y := trimLeft y \<rparr>"

definition setX :: "'a DSAPrivateKey_scheme \<Rightarrow> buffer option \<Rightarrow> 'a DSAPrivateKey_scheme" where
  "setX this x = this \<lparr> key_x := trimLeft x \<rparr>"

definition key_L :: "'a DSAParams_scheme \<Rightarrow> nat" where
  "key_L this = countLeft (key_p this)"

definition key_N :: "'a DSAParams_scheme \<Rightarrow> nat" where
  "key_N this = countLeft (key_q this)"

definition key_bits :: "'a DSAParams_scheme \<Rightarrow> nat" where
  "key_bits this = key_L this"

definition key_size :: "'a DSAParams_scheme \<Rightarrow> nat" where
  "key_size this = drop_bit 3 (key_N this + 7)"

definition fromParams :: "'a DSAKey_scheme \<Rightarrow> 'b DSAParams_scheme \<Rightarrow> 'a DSAKey_scheme" where
  "fromParams this params =
     this \<lparr> key_p := key_p params, key_q := key_q params, key_g := key_g params \<rparr>"

definition setParams :: "'a DSAKey_scheme \<Rightarrow> 'b DSAParams_scheme \<Rightarrow> 'a DSAKey_scheme" where
  "setParams this params = fromParams this params"

definition toPublic :: "DSAPrivateKey \<Rightarrow> DSAPublicKey" where
  "toPublic this =
     (new_DSAPublicKey None None None None)
       \<lparr> key_p := key_p this, key_q := key_q this, key_g := key_g this, key_y := key_y this \<rparr>"

text \<open>
  \<open>fromJSON\<close>: the two assertions, then one \<open>base64.decodeURL\<close> per field, stored as
  decoded. An exception leaves the function at the first field that fails.
\<close>

definition DSAParams_fromJSON :: "DSAParams \<Rightarrow> dsa_json option \<Rightarrow> js_error + DSAParams" where
  "DSAParams_fromJSON this json =
     (case json of
        None \<Rightarrow> Inl AssertionError
      | Some j \<Rightarrow>
          if json_kty j \<noteq> Some ''DSA'' then Inl AssertionError
          else (case decodeURL (json_p j) of Inl e \<Rightarrow> Inl e | Inr p \<Rightarrow>
               (case decodeURL (json_q j) of Inl e \<Rightarrow> Inl e | Inr q \<Rightarrow>
               (case decodeURL (json_g j) of Inl e \<Rightarrow> Inl e | Inr g \<Rightarrow>
                  Inr (this \<lparr> key_p := p, key_q := q, key_g := g \<rparr>)))))"

definition DSAKey_fromJSON :: "DSAKey \<Rightarrow> dsa_json option \<Rightarrow> js_error + DSAKey" where
  "DSAKey_fromJSON this json =
     (case json of
        None \<Rightarrow> Inl AssertionError
      | Some j \<Rightarrow>
          if json_kty j \<noteq> Some ''DSA'' then Inl AssertionError
          else (case decodeURL (json_p j) of Inl e \<Rightarrow> Inl e | Inr p \<Rightarrow>
               (case decodeURL (json_q j) of Inl e \<Rightarrow> Inl e | Inr q \<Rightarrow>
               (case decodeURL (json_g j) of Inl e \<Rightarrow> Inl e | Inr g \<Rightarrow>
               (case decodeURL (json_y j) of Inl e \<Rightarrow> Inl e | Inr y \<Rightarrow>
                  Inr (this \<lparr> key_p := p, key_q := q, key_g := g, key_y := y \<rparr>))))))"

definition DSAPrivateKey_fromJSON ::
  "DSAPrivateKey \<Rightarrow> dsa_json option \<Rightarrow> js_error + DSAPrivateKey" where
  "DSAPrivateKey_fromJSON this json =
     (case json of
        None \<Rightarrow> Inl AssertionError
      | Some j \<Rightarrow>
          if json_kty j \<noteq> Some ''DSA'' then Inl AssertionError
          else (case decodeURL (json_p j) of Inl e \<Rightarrow> Inl e | Inr p \<Rightarrow>
               (case decodeURL (json_q j) of Inl e \<Rightarrow> Inl e | Inr q \<Rightarrow>
               (case decodeURL (json_g j) of Inl e \<Rightarrow> Inl e | Inr g \<Rightarrow>
               (case (if json_y j \<noteq> None then decodeURL (json_y j) else Inr (key_y this)) of
                  Inl e \<Rightarrow> Inl e | Inr y \<Rightarrow>
               (case decodeURL (json_x j) of Inl e \<Rightarrow> Inl e | Inr x \<Rightarrow>
                  Inr (this \<lparr> key_p := p, key_q := q, key_g := g, key_y := y, key_x := x \<rparr>)))))))"

section \<open>RSA keys and JavaScript values\<close>

text \<open>
  Modelled from the spec: the key classes of internal/rsakey (absent),
  \<open>RSAPublicKey = (n, e)\<close> and \<open>RSAPrivateKey = (n, e, d, p, q, dp, dq, qi)\<close>, both
  subclasses of \<open>RSAKey\<close>.
\<close>

record RSAKey =
  rsa_n :: buffer
  rsa_e :: buffer

type_synonym RSAPublicKey = RSAKey

record RSAPrivateKey = RSAKey +
  rsa_d :: buffer
  rsa_p :: buffer
  rsa_q :: buffer
  rsa_dp :: buffer
  rsa_dq :: buffer
  rsa_qi :: buffer

text \<open>
  The entry points are JavaScript functions: they accept any value and check what
  they were given with \<open>assert\<close>. \<open>JHash id\<close> is an object whose \<open>id\<close> is the string
  \<open>id\<close>; no other value of the model has a string \<open>id\<close>.
\<close>

datatype jsval =
    JUndefined
  | JString string
  | JBuffer buffer
  | JHash string
  | JDSASignature DSASignature
  | JDSAParams DSAParams
  | JDSAPublicKey DSAPublicKey
  | JDSAPrivateKey DSAPrivateKey
  | JRSAPublicKey RSAPublicKey
  | JRSAPrivateKey RSAPrivateKey

text \<open>\<open>key instanceof DSAKey\<close>, with the fields a \<open>DSAKey\<close> method reads.\<close>

fun instanceof_DSAKey :: "jsval \<Rightarrow> DSAKey option" where
  "instanceof_DSAKey (JDSAPublicKey k) = Some k"
| "instanceof_DSAKey (JDSAPrivateKey k) =
     Some \<lparr> key_p = key_p k, key_q = key_q k, key_g = key_g k, key_y = key_y k \<rparr>"
| "instanceof_DSAKey _ = None"


section \<open>DSA in JavaScript (lib/js/dsa.js)\<close>

subsection \<open>Signing\<close>

text \<open>
  The inner \<open>for (;;)\<close> loop of \<open>sign\<close>: fill \<open>buf\<close> with \<open>n\<close> random bytes until the
  value \<open>k\<close> is nonzero and below \<open>q\<close>. The loop has no bound: on a tape that never
  yields such a value it does not return, which is the value \<open>None\<close>.
\<close>

partial_function (option) sample_k :: "tape \<Rightarrow> nat \<Rightarrow> nat \<Rightarrow> nat \<Rightarrow> (nat \<times> nat) option" where
  "sample_k rnd n qn pos =
     (let k = BN (randomFill rnd pos n)
      in if k \<noteq> 0 \<and> k < qn then Some (k, pos + n)
         else sample_k rnd n qn (pos + n))"

text \<open>
  The outer loop \<open>for (; attempts > 0; attempts--)\<close>. The state is the variables
  \<open>attempts\<close>, \<open>r\<close>, \<open>s\<close> and the tape position; the result is their value when the
  loop is left, by \<open>break\<close> or because \<open>attempts\<close> has reached zero, or the error that
  \<open>fermatInverse\<close> or \<open>modPow\<close> throws.
\<close>

fun sign_loop ::
  "tape \<Rightarrow> nat \<Rightarrow> nat \<Rightarrow> nat \<Rightarrow> nat \<Rightarrow> nat \<Rightarrow> buffer \<Rightarrow> nat \<Rightarrow> nat \<Rightarrow> nat \<Rightarrow> nat
     \<Rightarrow> (js_error + nat \<times> nat \<times> nat \<times> nat) option" where
  "sign_loop rnd n pn qn gn xn msg 0 r s pos = Some (Inr (0, r, s, pos))"
| "sign_loop rnd n pn qn gn xn msg (Suc a) r s pos =
     (case sample_k rnd n qn pos of
        None \<Rightarrow> None
      | Some (k, pos') \<Rightarrow>
          (case fermatInverse k qn of
             Inl e \<Rightarrow> Some (Inl e)
           | Inr ki \<Rightarrow>
               (case modPow gn k pn of
                  Inl e \<Rightarrow> Some (Inl e)
                | Inr r0 \<Rightarrow>
                    (let r' = r0 mod qn
                     in if r' = 0 then sign_loop rnd n pn qn gn xn msg a r' s pos'
                        else
                          (let z = BN msg;
                               s' = ((xn * r' + z) mod qn * ki) mod qn
                           in if s' \<noteq> 0 then Some (Inr (Suc a, r', s', pos'))
                              else sign_loop rnd n pn qn gn xn msg a r' s' pos')))))"

text \<open>
  \<open>sign(msg, key)\<close>. The variables \<open>r\<close> and \<open>s\<close> are undefined before the loop; they
  are read only after a \<open>break\<close>, which has assigned both, so their initial value
  (here \<open>0\<close>) is never observed.
\<close>

definition sign :: "tape \<Rightarrow> nat \<Rightarrow> jsval \<Rightarrow> jsval \<Rightarrow> (js_error + DSASignature \<times> nat) option" where
  "sign rnd pos msg key =
     (case msg of
        JBuffer m \<Rightarrow>
          (case key of
             JDSAPrivateKey k \<Rightarrow>
               (let pn = BN (key_p k);
                    qn = BN (key_q k);
                    gn = BN (key_g k);
                    xn = BN (key_x k);
                    n = bitLength qn
                in if qn \<le> 0 \<or> pn \<le> 0 \<or> gn \<le> 0 \<or> xn \<le> 0 \<or> n AND 7 \<noteq> 0
                   then Some (Inl (Error ''Invalid key.''))
                   else
                     (case sign_loop rnd (drop_bit 3 n) pn qn gn xn m 10 0 0 pos of
                        None \<Rightarrow> None
                      | Some (Inl e) \<Rightarrow> Some (Inl e)
                      | Some (Inr (attempts, r, s, pos')) \<Rightarrow>
                          if attempts = 0 then Some (Inl (Error ''Could not sign.''))
                          else Some (Inr (setS (setR (new_DSASignature (key_size k)) (toBuffer r))
                                              (toBuffer s), pos'))))
           | _ \<Rightarrow> Some (Inl AssertionError))
      | _ \<Rightarrow> Some (Inl AssertionError))"

subsection \<open>Verification\<close>

text \<open>
  \<open>verify(msg, sig, key)\<close>. It has no \<open>try\<close>: what \<open>invm\<close> or \<open>modPow\<close> throws leaves
  \<open>verify\<close> as an error.
\<close>

definition verify :: "jsval \<Rightarrow> jsval \<Rightarrow> jsval \<Rightarrow> js_error + bool" where
  "verify msg sig key =
     (case msg of
        JBuffer m \<Rightarrow>
          (case sig of
             JDSASignature sg \<Rightarrow>
               (case instanceof_DSAKey key of
                  Some k \<Rightarrow>
                    (let pn = BN (key_p k);
                         qn = BN (key_q k);
                         gn = BN (key_g k);
                         yn = BN (key_y k);
                         rn = BN (sig_r sg);
                         sn = BN (sig_s sg)
                     in if pn = 0 then Inr False
                        else if rn = 0 \<or> rn \<ge> qn then Inr False
                        else if sn = 0 \<or> sn \<ge> qn then Inr False
                        else
                          (case invm sn qn of
                             Inl e \<Rightarrow> Inl e
                           | Inr w \<Rightarrow>
                               (let n = bitLength qn
                                in if n AND 7 \<noteq> 0 then Inr False
                                   else
                                     (let z = BN m;
                                          u1 = (z * w) mod qn;
                                          w' = rn * w;
                                          u2 = w' mod qn
                                      in case modPow gn u1 pn of
                                           Inl e \<Rightarrow> Inl e
                                         | Inr u1' \<Rightarrow>
                                             (case modPow yn u2 pn of
                                                Inl e \<Rightarrow> Inl e
                                              | Inr u2' \<Rightarrow>
                                                  (let v = ((u1' * u2') mod pn) mod qn
                                                   in Inr (v = rn)))))))
                | None \<Rightarrow> Inl AssertionError)
           | _ \<Rightarrow> Inl AssertionError)
      | _ \<Rightarrow> Inl AssertionError)"

subsection \<open>Parameter generation\<close>

text \<open>\<open>(x >>> 0) === x\<close> for an integer \<open>x\<close>: it is its own unsigned 32-bit value.\<close>

definition is_uint32 :: "int \<Rightarrow> bool" where
  "is_uint32 x = (take_bit 32 x = x)"

text \<open>
  \<open>buf[buf.length - 1] |= 1; buf[0] |= 0x80\<close>. An index outside an empty buffer
  reads \<open>undefined\<close> and the store is dropped, so an empty buffer stays empty.
\<close>

definition force_bits :: "buffer \<Rightarrow> buffer" where
  "force_bits buf =
     (if buf = [] then []
      else (let b1 = buf[length buf - 1 := (buf ! (length buf - 1)) OR 1]
            in b1[0 := (b1 ! 0) OR 0x80]))"

text \<open>
  The loop \<open>for (let i = 0; i < 4 * L; i++)\<close> over candidates for \<open>p\<close>. The result is
  the prime found (the \<open>break generate\<close>), or \<open>None\<close> when the loop runs out, and the
  tape position. \<open>rem\<close> is a signed value: \<open>rem.isubn(1)\<close> gives \<open>-1\<close> when \<open>q\<close> divides
  the candidate. The primality test \<open>probablyPrime\<close> of internal/primes is a parameter.
\<close>

function search_p ::
  "(nat \<Rightarrow> nat \<Rightarrow> bool) \<Rightarrow> tape \<Rightarrow> nat \<Rightarrow> nat \<Rightarrow> nat \<Rightarrow> nat \<Rightarrow> nat option \<times> nat" where
  "search_p probablyPrime rnd L qn i pos =
     (if i < 4 * L then
        (let pb = force_bits (randomFill rnd pos (drop_bit 3 L));
             pos' = pos + drop_bit 3 L;
             pn0 = BN pb;
             rem = int pn0 mod int qn - 1;
             pn = nat (int pn0 - rem)
         in if bitLength pn < L then search_p probablyPrime rnd L qn (i + 1) pos'
            else if \<not> probablyPrime pn 64 then search_p probablyPrime rnd L qn (i + 1) pos'
            else (Some pn, pos'))
      else (None, pos))"
  by pat_completeness auto
termination
  by (relation "measure (\<lambda>(pp, rnd, L, qn, i, pos). 4 * L - i)") auto

declare search_p.simps [simp del]

text \<open>The labelled loop \<open>generate: for (;;)\<close>: it returns only through \<open>break generate\<close>.\<close>

partial_function (option) search_pq ::
  "(nat \<Rightarrow> nat \<Rightarrow> bool) \<Rightarrow> tape \<Rightarrow> nat \<Rightarrow> nat \<Rightarrow> nat \<Rightarrow> (nat \<times> nat \<times> nat) option" where
  "search_pq probablyPrime rnd L N pos =
     (let qb = force_bits (randomFill rnd pos (drop_bit 3 N));
          pos1 = pos + drop_bit 3 N;
          qn = BN qb
      in if \<not> probablyPrime qn 64 then search_pq probablyPrime rnd L N pos1
         else (case search_p probablyPrime rnd L qn 0 pos1 of
                 (Some pn, pos2) \<Rightarrow> Some (pn, qn, pos2)
               | (None, pos2) \<Rightarrow> search_pq probablyPrime rnd L N pos2))"

text \<open>
  The search for the generator: \<open>h\<close> starts at 2 and is incremented while \<open>g = 1\<close>; an
  error of \<open>modPow\<close> leaves the loop.
\<close>

partial_function (option) find_g :: "nat \<Rightarrow> nat \<Rightarrow> nat \<Rightarrow> (js_error + nat) option" where
  "find_g h e pn =
     (case modPow h e pn of
        Inl err \<Rightarrow> Some (Inl err)
      | Inr gn \<Rightarrow> if gn = 1 then find_g (h + 1) e pn else Some (Inr gn))"

text \<open>
  The body of \<open>generate(L, N)\<close> after its guards: the two searches, and the
  \<open>DSAParams\<close> object whose fields are assigned the buffers of \<open>p\<close>, \<open>q\<close> and \<open>g\<close>.
\<close>

definition generate_body ::
  "(nat \<Rightarrow> nat \<Rightarrow> bool) \<Rightarrow> tape \<Rightarrow> nat \<Rightarrow> nat \<Rightarrow> nat
     \<Rightarrow> (js_error + DSAParams \<times> nat) option" where
  "generate_body probablyPrime rnd pos L N =
     (case search_pq probablyPrime rnd L N pos of
        None \<Rightarrow> None
      | Some (pn, qn, pos') \<Rightarrow>
          (let pm1 = pn - 1;
               e = pm1 div qn
           in case find_g 2 e pn of
                None \<Rightarrow> None
              | Some (Inl err) \<Rightarrow> Some (Inl err)
              | Some (Inr gn) \<Rightarrow>
                  Some (Inr ((new_DSAParams None None None)
                          \<lparr> key_p := toBuffer pn, key_q := toBuffer qn, key_g := toBuffer gn \<rparr>,
                        pos'))))"

definition generate ::
  "(nat \<Rightarrow> nat \<Rightarrow> bool) \<Rightarrow> tape \<Rightarrow> nat \<Rightarrow> int \<Rightarrow> int \<Rightarrow> (js_error + DSAParams \<times> nat) option" where
  "generate probablyPrime rnd pos L N =
     (if \<not> is_uint32 L then Some (Inl AssertionError)
      else if \<not> is_uint32 N then Some (Inl AssertionError)
      else if \<not> (L = 1024 \<and> N = 160)
            \<and> \<not> (L = 2048 \<and> N = 224)
            \<and> \<not> (L = 2048 \<and> N = 256)
            \<and> \<not> (L = 3072 \<and> N = 256)
      then Some (Inl (Error ''Invalid parameter sizes.''))
      else generate_body probablyPrime rnd pos (nat L) (nat N))"

text \<open>\<open>paramsGenerate(bits)\<close>; \<open>None\<close> is a call without argument (\<open>bits == null\<close>).\<close>

definition paramsGenerate ::
  "(nat \<Rightarrow> nat \<Rightarrow> bool) \<Rightarrow> tape \<Rightarrow> nat \<Rightarrow> int option \<Rightarrow> (js_error + DSAParams \<times> nat) option" where
  "paramsGenerate probablyPrime rnd pos bits0 =
     (let bits = (case bits0 of None \<Rightarrow> 2048 | Some b \<Rightarrow> b)
      in if \<not> is_uint32 bits then Some (Inl AssertionError)
         else if bits < 1024 \<or> bits > 3072
         then Some (Inl (RangeError ''`bits` must range between 1024 and 3072.''))
         else (let L = bits;
                   N = (if bits < 2048 then 160 else 256)
               in generate probablyPrime rnd pos L N))"

section \<open>RSA entry points (lib/native/rsa.js)\<close>







section \<open>Mathematical notions used by the statements\<close>

text \<open>Primality of a natural number.\<close>

definition is_prime :: "nat \<Rightarrow> bool" where
  "is_prime p = (1 < p \<and> (\<forall>d. d dvd p \<longrightarrow> d = 1 \<or> d = p))"

text \<open>
  Polynomials over the integers as coefficient lists, lowest degree first, and their
  roots modulo \<open>p\<close>. They serve to show that the search for the generator ends below
  \<open>p\<close>.
\<close>

fun peval :: "int list \<Rightarrow> int \<Rightarrow> int" where
  "peval [] x = 0"
| "peval (c # cs) x = c + x * peval cs x"

definition roots :: "nat \<Rightarrow> int list \<Rightarrow> int set" where
  "roots p cs = {x. 0 \<le> x \<and> x < int p \<and> int p dvd peval cs x}"

section \<open>Notions used to state the properties of \<open>sign\<close>\<close>

text \<open>
  The \<open>j\<close>-th candidate for \<open>k\<close> that the sampling loop reads from position \<open>pos\<close>
  of the tape, when every candidate has \<open>n\<close> bytes.
\<close>

definition draw :: "tape \<Rightarrow> nat \<Rightarrow> nat \<Rightarrow> nat \<Rightarrow> nat" where
  "draw rnd n pos j = BN (randomFill rnd (pos + j * n) n)"

text \<open>
  The value \<open>k\<close> that the \<open>i\<close>-th attempt of \<open>sign\<close> (counted from 0) samples, with the
  tape position after it: attempt \<open>i\<close> samples where attempt \<open>i - 1\<close> stopped.
\<close>

fun nth_k :: "tape \<Rightarrow> nat \<Rightarrow> nat \<Rightarrow> nat \<Rightarrow> nat \<Rightarrow> (nat \<times> nat) option" where
  "nth_k rnd n qn pos 0 = sample_k rnd n qn pos"
| "nth_k rnd n qn pos (Suc i) =
     (case sample_k rnd n qn pos of
        None \<Rightarrow> None
      | Some (k, pos') \<Rightarrow> nth_k rnd n qn pos' i)"

text \<open>
  The values \<open>r = (g^k mod p) mod q\<close> and \<open>s = (k^-1 (z + x r)) mod q\<close> of an attempt
  with the sampled \<open>k\<close>, the inverse of \<open>k\<close> being \<open>k^(q - 2) mod q\<close>, and its failure.
\<close>

definition attempt_r :: "nat \<Rightarrow> nat \<Rightarrow> nat \<Rightarrow> nat \<Rightarrow> nat" where
  "attempt_r pn qn gn k = (gn ^ k mod pn) mod qn"

definition attempt_s :: "nat \<Rightarrow> nat \<Rightarrow> nat \<Rightarrow> nat \<Rightarrow> nat \<Rightarrow> nat \<Rightarrow> nat" where
  "attempt_s pn qn gn xn z k =
     ((xn * attempt_r pn qn gn k + z) mod qn * (k ^ (qn - 2) mod qn)) mod qn"

definition attempt_fails :: "nat \<Rightarrow> nat \<Rightarrow> nat \<Rightarrow> nat \<Rightarrow> nat \<Rightarrow> nat \<Rightarrow> bool" where
  "attempt_fails pn qn gn xn z k =
     (attempt_r pn qn gn k = 0 \<or> attempt_s pn qn gn xn z k = 0)"

text \<open>A small private key, used to run the functions on concrete inputs.\<close>

definition K0 :: DSAPrivateKey where
  "K0 = \<lparr> key_p = [1, 7], key_q = [131], key_g = [4], key_y = [78], key_x = [7] \<rparr>"

text \<open>
  A native private key of sane sizes (a 1024-bit \<open>p\<close>, a 160-bit \<open>q\<close>), used to run
  \<open>bcrypto_dsa_sign\<close> up to the conversion of the signature.
\<close>

definition priv0 :: bcrypto_dsa_key_t where
  "priv0 = \<lparr> pd = Some (128 # replicate 127 0), qd = Some (128 # replicate 19 0),
             gd = Some [2], yd = Some [2], xd = Some [3] \<rparr>"

text \<open>The 6-bit groups of a byte string, whose characters \<open>encodeURL\<close> emits.\<close>

fun sextets :: "nat list \<Rightarrow> nat list" where
  "sextets (a # b # c # rest) =
     (a div 4) # ((a mod 4) * 16 + b div 16) # ((b mod 16) * 4 + c div 64) # (c mod 64)
       # sextets rest"
| "sextets [a, b] = [a div 4, (a mod 4) * 16 + b div 16, (b mod 16) * 4]"
| "sextets [a] = [a div 4, (a mod 4) * 16]"
| "sextets [] = []"

text \<open>
  A random tape, and a primality test that accepts two primes only, used to run the
  generation of parameters at the sizes \<open>L = 16\<close>, \<open>N = 8\<close>; \<open>params0\<close> is what it returns.
\<close>

definition rnd0 :: tape where
  "rnd0 i = (if i = 0 then 131 else if i = 1 then 128 else 245)"

definition probablyPrime0 :: "nat \<Rightarrow> nat \<Rightarrow> bool" where
  "probablyPrime0 n rounds = (n = 131 \<or> n = 33013)"

definition params0 :: DSAParams where
  "params0 = \<lparr> key_p = [128, 245], key_q = [131], key_g = [105, 55] \<rparr>"

text \<open>
  The padded form of an unpadded base64 string (RFC 4648): the character \<open>=\<close> appended
  until the length is a multiple of four.
\<close>

definition pad64 :: "string \<Rightarrow> string" where
  "pad64 str = str @ replicate ((4 - length str mod 4) mod 4) CHR ''=''"
section \<open>Number theory\<close>

subsection \<open>Primes and Fermat's little theorem\<close>

lemma is_prime_gt1: "is_prime p \<Longrightarrow> 1 < p"
  by (simp add: is_prime_def)

lemma is_prime_coprime:
  assumes "is_prime p" and "\<not> p dvd a"
  shows "coprime p a"
proof (rule coprimeI)
  fix c assume c: "c dvd p" "c dvd a"
  from assms(1) c(1) have "c = 1 \<or> c = p" by (simp add: is_prime_def)
  with c(2) assms(2) show "is_unit c" by auto
qed

lemma is_prime_dvd_mult:
  assumes "is_prime p" and "p dvd a * b"
  shows "p dvd a \<or> p dvd b"
proof (cases "p dvd a")
  case False
  with assms(1) have "coprime p a" by (rule is_prime_coprime)
  with assms(2) have "p dvd b" by (simp add: coprime_dvd_mult_right_iff)
  then show ?thesis ..
qed simp

lemma is_prime_not_dvd_less:
  assumes "is_prime p" "0 < a" "a < p"
  shows "\<not> p dvd a"
  using assms by (auto dest: dvd_imp_le)

lemma is_prime_dvd_choose:
  assumes p: "is_prime p" and k: "0 < k" "k < p"
  shows "p dvd (p choose k)"
proof -
  have "k * (p choose k) = p * ((p - 1) choose (k - 1))"
    using k by (simp add: times_binomial_minus1_eq)
  then have "p dvd k * (p choose k)" by simp
  moreover have "\<not> p dvd k" using p k by (rule is_prime_not_dvd_less)
  ultimately show ?thesis using is_prime_dvd_mult [OF p] by blast
qed

lemma fermat_step:
  assumes p: "is_prime p"
  shows "(a + 1) ^ p mod p = (a ^ p + 1) mod p"
proof -
  have p2: "2 \<le> p" using is_prime_gt1 [OF p] by simp
  have "(a + 1) ^ p = (\<Sum>k\<le>p. (p choose k) * a ^ k)"
    using binomial [of a 1 p] by (simp add: atLeast0AtMost)
  also have "{..p} = insert 0 (insert p {1..<p})"
    using p2 by auto
  also have "(\<Sum>k\<in>insert 0 (insert p {1..<p}). (p choose k) * a ^ k)
           = 1 + (a ^ p + (\<Sum>k\<in>{1..<p}. (p choose k) * a ^ k))"
    using p2 by (simp add: sum.insert)
  finally have eq: "(a + 1) ^ p = (a ^ p + 1) + (\<Sum>k\<in>{1..<p}. (p choose k) * a ^ k)"
    by simp
  have "p dvd (\<Sum>k\<in>{1..<p}. (p choose k) * a ^ k)"
    by (rule dvd_sum) (auto intro!: dvd_mult2 is_prime_dvd_choose [OF p])
  then have "((a ^ p + 1) + (\<Sum>k\<in>{1..<p}. (p choose k) * a ^ k)) mod p = (a ^ p + 1) mod p"
    by (metis mod_add_right_eq dvd_eq_mod_eq_0 add.right_neutral)
  with eq show ?thesis by simp
qed

lemma fermat_power: "is_prime p \<Longrightarrow> a ^ p mod p = a mod p"
proof (induction a)
  case 0
  then show ?case using is_prime_gt1 [of p] by (simp add: zero_power)
next
  case (Suc a)
  have "(Suc a) ^ p mod p = Suc (a ^ p) mod p"
    using fermat_step [OF Suc.prems, of a] by simp
  also have "\<dots> = Suc (a ^ p mod p) mod p" by (simp add: mod_Suc_eq)
  also have "\<dots> = Suc (a mod p) mod p" using Suc by simp
  also have "\<dots> = Suc a mod p" by (simp add: mod_Suc_eq)
  finally show ?case .
qed

lemma fermat_little:
  assumes p: "is_prime p" and a: "\<not> p dvd a"
  shows "a ^ (p - 1) mod p = 1"
proof -
  have p1: "1 < p" using p by (rule is_prime_gt1)
  have a0: "0 < a" using a by (cases "a = 0") auto
  have "a ^ p mod p = a mod p" using p by (rule fermat_power)
  then have "p dvd a ^ p - a"
    by (metis mod_eq_dvd_iff_nat a0 one_le_power power_one_right power_increasing
        Suc_leI less_imp_le_nat p1 One_nat_def)
  moreover have "a ^ p - a = a * (a ^ (p - 1) - 1)"
    using p1 by (cases p) (auto simp: algebra_simps)
  ultimately have "p dvd a * (a ^ (p - 1) - 1)" by simp
  with is_prime_dvd_mult [OF p] a have "p dvd a ^ (p - 1) - 1" by blast
  moreover have "1 \<le> a ^ (p - 1)" using a0 by simp
  ultimately have "a ^ (p - 1) mod p = 1 mod p"
    by (metis mod_eq_dvd_iff_nat)
  with p1 show ?thesis by simp
qed

subsection \<open>Modular inverses and exponents\<close>

lemma egcd_bezout:
  "0 \<le> a \<Longrightarrow> 0 \<le> b \<Longrightarrow> egcd a b = (g, x, y) \<Longrightarrow> a * x + b * y = g \<and> g = gcd a b"
proof (induction a b arbitrary: g x y rule: egcd.induct)
  case (1 a b)
  show ?case
  proof (cases "b \<le> 0")
    case True
    with "1.prems" have b0: "b = 0" by simp
    have "egcd a b = (a, 1, 0)" by (subst egcd.simps) (simp add: b0)
    with "1.prems" b0 show ?thesis by simp
  next
    case False
    obtain g' x' y' where rec: "egcd b (a mod b) = (g', x', y')"
      by (cases "egcd b (a mod b)") auto
    from False have bpos: "0 < b" by simp
    have ih: "b * x' + (a mod b) * y' = g' \<and> g' = gcd b (a mod b)"
      using "1.IH" [OF False _ _ rec] "1.prems" bpos by simp
    have "egcd a b = (g', y', x' - (a div b) * y')"
      by (subst egcd.simps) (simp add: False rec)
    with "1.prems"(3) have res: "g = g'" "x = y'" "y = x' - (a div b) * y'"
      by auto
    have "a * y' + b * (x' - (a div b) * y') = b * x' + (a - b * (a div b)) * y'"
      by (simp add: algebra_simps)
    also have "a - b * (a div b) = a mod b"
      by (simp add: minus_mult_div_eq_mod)
    finally have "a * x + b * y = g" using ih res by simp
    moreover have "g = gcd a b" using ih res by (simp add: gcd.commute gcd_red_int [symmetric])
    ultimately show ?thesis by simp
  qed
qed

lemma invm_inverse:
  assumes "coprime a m" and "1 < m"
  shows "\<exists>w. invm a m = Inr w \<and> (a * w) mod m = 1 \<and> w < m"
proof -
  obtain g x y where e: "egcd (int a) (int m) = (g, x, y)"
    by (cases "egcd (int a) (int m)") auto
  have bz: "int a * x + int m * y = g \<and> g = gcd (int a) (int m)"
    by (rule egcd_bezout [OF _ _ e]) simp_all
  have g1: "g = 1" using bz assms(1) by (simp add: coprime_iff_gcd_eq_1)
  have inv: "invm a m = Inr (nat (x mod int m))" by (simp add: invm_def e g1)
  have nn: "0 \<le> x mod int m" using assms(2) by simp
  have "(int a * (x mod int m)) mod int m = (int a * x) mod int m"
    by (simp add: mod_mult_right_eq)
  also have "\<dots> = (int a * x + int m * y) mod int m" by simp
  also have "\<dots> = 1 mod int m" using bz g1 by simp
  also have "\<dots> = 1" using assms(2) by simp
  finally have "(int a * (x mod int m)) mod int m = 1" .
  then have "int ((a * nat (x mod int m)) mod m) = 1"
    using nn by (simp add: zmod_int)
  then have one: "(a * nat (x mod int m)) mod m = 1" by simp
  have "x mod int m < int m" using assms(2) by simp
  then have "nat (x mod int m) < m" using nn by simp
  with inv one show ?thesis by simp
qed

lemma invm_no_inverse:
  assumes "\<not> coprime a m"
  shows "invm a m = Inl (Error ''no inverse'')"
proof -
  obtain g x y where e: "egcd (int a) (int m) = (g, x, y)"
    by (cases "egcd (int a) (int m)") auto
  have bz: "int a * x + int m * y = g \<and> g = gcd (int a) (int m)"
    by (rule egcd_bezout [OF _ _ e]) simp_all
  have "g \<noteq> 1" using bz assms by (simp add: coprime_iff_gcd_eq_1)
  then show ?thesis by (simp add: invm_def e)
qed

lemma modPow_Inr: "1 < m \<Longrightarrow> modPow x y m = Inr (x ^ y mod m)"
  by (simp add: modPow_def BN_mont_def)

lemma modPow_Inl: "m \<le> 1 \<Longrightarrow> modPow x y m = Inl (Error ''modulus must be greater than 1'')"
  by (simp add: modPow_def BN_mont_def)

lemma fermatInverse_Inr: "1 < q \<Longrightarrow> fermatInverse k q = Inr (k ^ (q - 2) mod q)"
  by (simp add: fermatInverse_def modPow_Inr)

lemma fermatInverse_Inl:
  "q \<le> 1 \<Longrightarrow> fermatInverse k q = Inl (Error ''modulus must be greater than 1'')"
  by (simp add: fermatInverse_def modPow_Inl)

lemma power_mod_period:
  assumes "(g::nat) ^ q mod p = 1 mod p"
  shows "g ^ a mod p = g ^ (a mod q) mod p"
proof -
  have "(g ^ q) ^ (a div q) * g ^ (a mod q) = g ^ (q * (a div q) + a mod q)"
    by (simp only: power_add power_mult)
  also have "\<dots> = g ^ a" by simp
  finally have "g ^ a = (g ^ q) ^ (a div q) * g ^ (a mod q)" by simp
  then have "g ^ a mod p = (((g ^ q) mod p) ^ (a div q) mod p) * g ^ (a mod q) mod p"
    by (simp add: mod_mult_left_eq power_mod)
  also have "\<dots> = ((1 mod p) ^ (a div q) mod p) * g ^ (a mod q) mod p"
    using assms by simp
  also have "\<dots> = g ^ (a mod q) mod p"
    by (simp add: power_mod mod_mult_left_eq)
  finally show ?thesis .
qed

lemma fermat_inverse:
  assumes q: "is_prime q" and k: "0 < k" "k < q"
  shows "(k * (k ^ (q - 2) mod q)) mod q = 1"
proof -
  have nd: "\<not> q dvd k" using q k by (rule is_prime_not_dvd_less)
  have q2: "2 \<le> q" using is_prime_gt1 [OF q] by simp
  obtain n where n: "q = Suc (Suc n)"
    using q2 by (cases q rule: nat.exhaust, simp, rename_tac m, case_tac m, auto)
  have "k * k ^ (q - 2) = k ^ (q - 1)"
    by (simp add: n)
  then have "(k * (k ^ (q - 2) mod q)) mod q = k ^ (q - 1) mod q"
    by (simp add: mod_mult_right_eq)
  with fermat_little [OF q nd] show ?thesis by simp
qed

lemma is_prime_coprime_less:
  assumes "is_prime q" "0 < s" "s < q"
  shows "coprime s q"
  using is_prime_coprime [OF assms(1) is_prime_not_dvd_less [OF assms]]
  by (simp add: coprime_commute)

lemma dsa_exponent:
  assumes q: "is_prime q"
    and k: "0 < k" "k < q"
    and s: "s = ((x * r + z) mod q * ki) mod q" "s \<noteq> 0"
    and ki: "(k * ki) mod q = 1"
    and w: "(s * w) mod q = 1"
  shows "((z * w) mod q + x * ((r * w) mod q)) mod q = k"
proof -
  have D: "(k * s) mod q = (x * r + z) mod q"
  proof -
    have "(k * s) mod q = (k * ((x * r + z) * ki)) mod q"
      unfolding s(1) by (simp add: mod_mult_right_eq mod_mult_left_eq)
    also have "\<dots> = ((x * r + z) * (k * ki)) mod q"
      by (simp add: mult_ac)
    also have "\<dots> = ((x * r + z) * ((k * ki) mod q)) mod q"
      by (simp add: mod_mult_right_eq)
    also have "\<dots> = (x * r + z) mod q"
      by (simp add: ki)
    finally show ?thesis .
  qed
  have "((z * w) mod q + x * ((r * w) mod q)) mod q
        = ((z * w) mod q + (x * ((r * w) mod q)) mod q) mod q"
    by (simp add: mod_add_right_eq)
  also have "(x * ((r * w) mod q)) mod q = (x * (r * w)) mod q"
    by (simp add: mod_mult_right_eq)
  also have "((z * w) mod q + (x * (r * w)) mod q) mod q = (z * w + x * (r * w)) mod q"
    by (simp add: mod_add_eq)
  also have "\<dots> = (w * (x * r + z)) mod q"
    by (simp add: algebra_simps)
  also have "\<dots> = (w * ((x * r + z) mod q)) mod q"
    by (simp add: mod_mult_right_eq)
  also have "\<dots> = (w * ((k * s) mod q)) mod q"
    by (simp add: D)
  also have "\<dots> = (w * (k * s)) mod q"
    by (simp add: mod_mult_right_eq)
  also have "\<dots> = (k * (s * w)) mod q"
    by (simp add: mult_ac)
  also have "\<dots> = (k * ((s * w) mod q)) mod q"
    by (simp add: mod_mult_right_eq)
  also have "\<dots> = k mod q"
    by (simp add: w)
  also have "\<dots> = k" using k by simp
  finally show ?thesis .
qed

lemma dsa_verify_value:
  assumes gq: "(g::nat) ^ q mod p = 1"
    and e: "(u1 + x * u2) mod q = k"
  shows "((g ^ u1 mod p) * ((g ^ x mod p) ^ u2 mod p)) mod p = g ^ k mod p"
proof -
  have p1: "(1::nat) mod p = 1"
    using gq by (cases "p = 1") auto
  have "((g ^ u1 mod p) * ((g ^ x mod p) ^ u2 mod p)) mod p
        = (g ^ u1 * (g ^ x) ^ u2) mod p"
    by (simp add: power_mod mod_mult_eq)
  also have "\<dots> = g ^ (u1 + x * u2) mod p"
    by (simp add: power_add power_mult)
  also have "\<dots> = g ^ ((u1 + x * u2) mod q) mod p"
    by (rule power_mod_period) (simp only: gq p1)
  finally show ?thesis by (simp add: e)
qed

subsection \<open>Roots of a polynomial modulo a prime\<close>

lemma peval_factor:
  "\<exists>ds. length ds = length cs - 1
        \<and> (2 \<le> length cs \<longrightarrow> last ds = last cs)
        \<and> (\<forall>x. peval cs x = (x - a) * peval ds x + peval cs a)"
proof (induction cs)
  case Nil
  show ?case by (rule exI [of _ "[]"]) simp
next
  case (Cons c cs)
  show ?case
  proof (cases "cs = []")
    case True
    show ?thesis by (rule exI [of _ "[]"]) (simp add: True)
  next
    case False
    from Cons.IH obtain ds where ds: "length ds = length cs - 1"
      "2 \<le> length cs \<longrightarrow> last ds = last cs"
      "\<forall>x. peval cs x = (x - a) * peval ds x + peval cs a"
      by (elim exE conjE)
    let ?ds = "peval cs a # ds"
    have len: "length ?ds = length (c # cs) - 1"
      using False ds(1) by (cases cs) auto
    have lst: "last ?ds = last (c # cs)"
    proof (cases "ds = []")
      case True
      with ds(1) False obtain c1 where "cs = [c1]"
        by (cases cs) auto
      with True show ?thesis by simp
    next
      case ne: False
      with ds(1) have "2 \<le> length cs" by (cases ds) auto
      with ds(2) ne False show ?thesis by simp
    qed
    have ev: "\<forall>x. peval (c # cs) x = (x - a) * peval ?ds x + peval (c # cs) a"
    proof
      fix x
      have step: "peval cs x = (x - a) * peval ds x + peval cs a"
        using ds(3) by (rule spec)
      have "peval (c # cs) x = c + x * ((x - a) * peval ds x + peval cs a)"
        by (simp only: peval.simps step)
      also have "\<dots> = (x - a) * (peval cs a + x * peval ds x) + (c + a * peval cs a)"
        by (simp add: algebra_simps)
      finally show "peval (c # cs) x = (x - a) * peval ?ds x + peval (c # cs) a"
        by simp
    qed
    show ?thesis
      by (rule exI [of _ ?ds]) (intro conjI impI len lst ev)
  qed
qed

lemma is_prime_int_dvd_mult:
  assumes "is_prime p" and "int p dvd a * b"
  shows "int p dvd a \<or> int p dvd b"
proof -
  have eq: "nat \<bar>a * b\<bar> = nat \<bar>a\<bar> * nat \<bar>b\<bar>"
    by (simp add: abs_mult nat_mult_distrib)
  from assms(2) have "p dvd nat \<bar>a * b\<bar>" by (simp only: dvd_nat_abs_iff)
  then have "p dvd nat \<bar>a\<bar> * nat \<bar>b\<bar>" by (simp only: eq)
  with is_prime_dvd_mult [OF assms(1)] have "p dvd nat \<bar>a\<bar> \<or> p dvd nat \<bar>b\<bar>" by blast
  then show ?thesis by (simp only: dvd_nat_abs_iff)
qed

lemma finite_roots: "finite (roots p cs)"
proof -
  have "roots p cs \<subseteq> {0..<int p}" by (auto simp: roots_def)
  then show ?thesis by (rule finite_subset) simp
qed

lemma roots_bound:
  assumes p: "is_prime p"
  shows "cs \<noteq> [] \<Longrightarrow> \<not> int p dvd last cs \<Longrightarrow> card (roots p cs) \<le> length cs - 1"
proof (induction "length cs" arbitrary: cs)
  case 0
  then show ?case by simp
next
  case (Suc n)
  show ?case
  proof (cases "roots p cs = {}")
    case True
    then show ?thesis by simp
  next
    case False
    then obtain a where a: "a \<in> roots p cs" by blast
    then have a_range: "0 \<le> a" "a < int p" and a_root: "int p dvd peval cs a"
      by (auto simp: roots_def)
    obtain ds where ds: "length ds = length cs - 1"
      "2 \<le> length cs \<longrightarrow> last ds = last cs"
      "\<forall>x. peval cs x = (x - a) * peval ds x + peval cs a"
      using peval_factor [of cs a] by (elim exE conjE)
    have len2: "2 \<le> length cs"
    proof (rule ccontr)
      assume "\<not> 2 \<le> length cs"
      with Suc.prems(1) obtain c where c: "cs = [c]" by (cases cs) (auto simp: Suc_le_eq)
      with a_root Suc.prems(2) show False by simp
    qed
    have ds_ne: "ds \<noteq> []" using ds(1) len2 by auto
    have ds_last: "\<not> int p dvd last ds" using ds(2) len2 Suc.prems(2) by simp
    have ds_len: "n = length ds" using Suc.hyps(2) ds(1) by simp
    have ih: "card (roots p ds) \<le> length ds - 1"
      by (rule Suc.hyps(1) [OF ds_len ds_ne ds_last])
    have sub: "roots p cs \<subseteq> insert a (roots p ds)"
    proof
      fix x assume x: "x \<in> roots p cs"
      then have xr: "0 \<le> x" "x < int p" "int p dvd peval cs x" by (auto simp: roots_def)
      show "x \<in> insert a (roots p ds)"
      proof (cases "x = a")
        case True then show ?thesis by simp
      next
        case False
        have step: "peval cs x = (x - a) * peval ds x + peval cs a"
          using ds(3) by (rule spec)
        have "int p dvd (x - a) * peval ds x + peval cs a"
          using xr(3) by (simp only: step)
        with a_root have "int p dvd (x - a) * peval ds x"
          by (simp add: dvd_add_left_iff)
        with is_prime_int_dvd_mult [OF p] have "int p dvd x - a \<or> int p dvd peval ds x" by blast
        moreover have "\<not> int p dvd x - a"
        proof
          assume d: "int p dvd x - a"
          show False
          proof (cases "a < x")
            case True
            then have "int p \<le> x - a" using d by (intro zdvd_imp_le) simp_all
            with xr a_range show False by linarith
          next
            case lt: False
            with False have "0 < a - x" by simp
            moreover have "int p dvd a - x" using d by (simp add: dvd_diff_commute)
            ultimately have "int p \<le> a - x" by (intro zdvd_imp_le)
            with xr a_range show False by linarith
          qed
        qed
        ultimately have "int p dvd peval ds x" by blast
        with xr show ?thesis by (simp add: roots_def)
      qed
    qed
    have "card (roots p cs) \<le> card (insert a (roots p ds))"
      by (rule card_mono) (simp_all add: finite_roots sub)
    also have "\<dots> \<le> Suc (card (roots p ds))"
      by (simp add: card_insert_if finite_roots)
    also have "\<dots> \<le> Suc (length ds - 1)" using ih by simp
    also have "\<dots> = length cs - 1" using ds(1) len2 by simp
    finally show ?thesis .
  qed
qed

lemma peval_monomial: "peval (replicate n 0 @ [1]) x = x ^ n"
  by (induction n) simp_all

lemma power_roots_bound:
  assumes p: "is_prime p" and e: "0 < e"
  shows "card {x. 0 \<le> x \<and> x < int p \<and> int p dvd x ^ e - 1} \<le> e"
proof -
  let ?cs = "(- 1) # replicate (e - 1) 0 @ [1]"
  have ev: "peval ?cs x = x ^ e - 1" for x
  proof -
    have "peval ?cs x = - 1 + x * x ^ (e - 1)" by (simp add: peval_monomial)
    also have "x * x ^ (e - 1) = x ^ e" using e by (cases e) simp_all
    finally show ?thesis by simp
  qed
  have nd: "\<not> int p dvd last ?cs" using is_prime_gt1 [OF p] by simp
  have "card (roots p ?cs) \<le> length ?cs - 1"
    using roots_bound [OF p, of ?cs] nd by simp
  moreover have "roots p ?cs = {x. 0 \<le> x \<and> x < int p \<and> int p dvd x ^ e - 1}"
    unfolding roots_def ev ..
  ultimately show ?thesis using e by simp
qed

lemma exists_non_root:
  assumes p: "is_prime p" and e: "0 < e" "e < p - 1"
  shows "\<exists>h. 2 \<le> h \<and> h < p \<and> h ^ e mod p \<noteq> 1"
proof (rule ccontr)
  assume "\<not> ?thesis"
  then have all: "\<And>h. 2 \<le> h \<Longrightarrow> h < p \<Longrightarrow> h ^ e mod p = 1" by blast
  have p1: "1 < p" using p by (rule is_prime_gt1)
  have all1: "h ^ e mod p = 1" if "1 \<le> h" "h < p" for h
  proof (cases "h = 1")
    case True with p1 show ?thesis by simp
  next
    case False with that all show ?thesis by simp
  qed
  let ?R = "{x. 0 \<le> x \<and> x < int p \<and> int p dvd x ^ e - 1}"
  have "int ` {1..<p} \<subseteq> ?R"
  proof
    fix x assume "x \<in> int ` {1..<p}"
    then obtain h where h: "x = int h" "1 \<le> h" "h < p" by auto
    have "h ^ e mod p = 1" using all1 h by simp
    then have "int (h ^ e mod p) = 1" by simp
    then have "(int h) ^ e mod int p = 1 mod int p"
      using p1 by (simp add: zmod_int)
    then have "int p dvd (int h) ^ e - 1"
      by (simp only: mod_eq_dvd_iff)
    then show "x \<in> ?R" using h by simp
  qed
  moreover have fin: "finite ?R"
    by (rule finite_subset [of _ "{0..<int p}"]) auto
  ultimately have "card (int ` {1..<p}) \<le> card ?R" by (rule card_mono [rotated])
  moreover have "card (int ` {1..<p}) = p - 1"
    by (simp add: card_image)
  ultimately have "p - 1 \<le> e" using power_roots_bound [OF p e(1)] by simp
  with e(2) show False by simp
qed

section \<open>Buffers, values and bit lengths\<close>

lemma BN_Nil [simp]: "BN [] = 0"
  by (simp add: BN_def)

lemma BN_snoc [simp]: "BN (xs @ [b]) = BN xs * 256 + unat b"
  by (simp add: BN_def)

lemma BN_append: "BN (xs @ ys) = BN xs * 256 ^ length ys + BN ys"
proof (induction ys rule: rev_induct)
  case Nil
  show ?case by simp
next
  case (snoc y ys)
  have "BN (xs @ ys @ [y]) = BN ((xs @ ys) @ [y])" by simp
  also have "\<dots> = BN (xs @ ys) * 256 + unat y" by (rule BN_snoc)
  finally show ?case by (simp add: snoc algebra_simps)
qed

lemma BN_Cons: "BN (b # xs) = unat b * 256 ^ length xs + BN xs"
  using BN_append [of "[b]" xs] by (simp add: BN_def)

lemma BN_replicate_zero [simp]: "BN (replicate k 0 @ xs) = BN xs"
  by (induction k) (simp_all add: BN_Cons)

lemma BN_less: "BN xs < 256 ^ length xs"
proof (induction xs rule: rev_induct)
  case Nil
  show ?case by simp
next
  case (snoc x xs)
  have "unat x < 256" using unsigned_less [of x, where 'a = nat] by simp
  with snoc show ?case by simp
qed

lemma BN_toArrayLike [simp]: "BN (toArrayLike n) = n"
proof (induction n rule: toArrayLike.induct)
  case (1 n)
  show ?case
  proof (cases "n = 0")
    case True
    then show ?thesis by (simp add: toArrayLike.simps)
  next
    case False
    have "toArrayLike n = toArrayLike (n div 256) @ [of_nat (n mod 256)]"
      using False by (subst toArrayLike.simps) simp
    moreover have "unat (of_nat (n mod 256) :: byte) = n mod 256"
      by (simp add: unat_of_nat)
    ultimately show ?thesis using 1 False by simp
  qed
qed

lemma length_toArrayLike_le: "length (toArrayLike n) \<le> k \<longleftrightarrow> n < 256 ^ k"
proof (induction n arbitrary: k rule: toArrayLike.induct)
  case (1 n)
  show ?case
  proof (cases "n = 0")
    case True
    then show ?thesis by (simp add: toArrayLike.simps)
  next
    case False
    have len: "length (toArrayLike n) = Suc (length (toArrayLike (n div 256)))"
      using False by (subst toArrayLike.simps) simp
    show ?thesis
    proof (cases k)
      case 0
      with False len show ?thesis by simp
    next
      case (Suc j)
      have "length (toArrayLike n) \<le> Suc j \<longleftrightarrow> n div 256 < 256 ^ j"
        using "1.IH" [OF False, of j] len by simp
      also have "\<dots> \<longleftrightarrow> n < 256 ^ Suc j"
        by (simp add: less_mult_imp_div_less div_less_iff_less_mult mult.commute)
      finally show ?thesis using Suc by simp
    qed
  qed
qed

lemma bitLength_le: "bitLength n \<le> k \<longleftrightarrow> n < 2 ^ k"
proof (induction n arbitrary: k rule: bitLength.induct)
  case (1 n)
  show ?case
  proof (cases "n = 0")
    case True
    then show ?thesis by (simp add: bitLength.simps)
  next
    case False
    have bl: "bitLength n = Suc (bitLength (n div 2))"
      using False by (subst bitLength.simps) simp
    show ?thesis
    proof (cases k)
      case 0
      with False bl show ?thesis by simp
    next
      case (Suc j)
      have "bitLength n \<le> Suc j \<longleftrightarrow> n div 2 < 2 ^ j"
        using "1.IH" [OF False, of j] bl by simp
      also have "\<dots> \<longleftrightarrow> n < 2 ^ Suc j"
        by (simp add: div_less_iff_less_mult mult.commute)
      finally show ?thesis using Suc by simp
    qed
  qed
qed

lemma bitLength_mono: "m \<le> n \<Longrightarrow> bitLength m \<le> bitLength n"
proof -
  assume "m \<le> n"
  have "n < 2 ^ bitLength n" using bitLength_le [of n "bitLength n"] by simp
  with \<open>m \<le> n\<close> have "m < 2 ^ bitLength n" by simp
  then show ?thesis by (simp add: bitLength_le)
qed

lemma bitLength_eq:
  assumes "0 < L" "2 ^ (L - 1) \<le> n" "n < 2 ^ L"
  shows "bitLength n = L"
proof -
  have "bitLength n \<le> L" using assms(3) by (simp add: bitLength_le)
  moreover have "\<not> bitLength n \<le> L - 1" using assms(2) by (simp add: bitLength_le)
  ultimately show ?thesis using assms(1) by simp
qed

lemma length_toArrayLike: "length (toArrayLike n) = BN_num_bytes n"
proof -
  have pw: "(256::nat) ^ k = 2 ^ (8 * k)" for k
    by (simp add: power_mult)
  have "length (toArrayLike n) \<le> k \<longleftrightarrow> BN_num_bytes n \<le> k" for k
  proof -
    have "length (toArrayLike n) \<le> k \<longleftrightarrow> bitLength n \<le> 8 * k"
      by (simp add: length_toArrayLike_le bitLength_le pw)
    also have "\<dots> \<longleftrightarrow> (bitLength n + 7) div 8 \<le> k" by arith
    finally show ?thesis by (simp add: BN_num_bytes_def)
  qed
  then show ?thesis by (meson order_refl order_antisym)
qed

lemma canonical_toArrayLike: "canonical (toArrayLike n)"
proof (induction n rule: toArrayLike.induct)
  case (1 n)
  show ?case
  proof (cases "n = 0")
    case True
    then show ?thesis by (simp add: toArrayLike.simps canonical_def)
  next
    case False
    have eq: "toArrayLike n = toArrayLike (n div 256) @ [of_nat (n mod 256)]"
      using False by (subst toArrayLike.simps) simp
    show ?thesis
    proof (cases "n div 256 = 0")
      case True
      then have "n < 256" by (simp add: div_eq_0_iff)
      then have "(of_nat n :: byte) \<noteq> 0"
        using False by (auto simp: word_of_nat_eq_0_iff dest: dvd_imp_le)
      moreover have "toArrayLike n = [of_nat n]"
        using eq True \<open>n < 256\<close> by (simp add: toArrayLike.simps)
      ultimately show ?thesis by (simp add: canonical_def)
    next
      case nz: False
      then have "toArrayLike (n div 256) \<noteq> []"
        by (subst toArrayLike.simps) simp
      with "1.IH" [OF False] eq show ?thesis
        by (cases "toArrayLike (n div 256)") (simp_all add: canonical_def)
    qed
  qed
qed

section \<open>Lemmas about signing and verification\<close>

lemma and7_eq_mod8: "(n::nat) AND 7 = n mod 8"
  using take_bit_eq_mask [of 3 n] by (simp add: take_bit_eq_mod mask_eq_exp_minus_1)

lemma drop_bit3_eq_div8: "drop_bit 3 (n::nat) = n div 8"
  by (simp add: drop_bit_eq_div)

lemma sample_k_result:
  assumes "sample_k rnd n qn pos = Some res"
  shows "0 < fst res \<and> fst res < qn"
  by (rule sample_k.raw_induct
        [where P = "\<lambda>rnd n qn pos res. 0 < fst res \<and> fst res < qn", OF _ assms])
     (auto simp: Let_def split: if_splits)

lemma sample_k_range:
  "sample_k rnd n qn pos = Some (k, pos') \<Longrightarrow> 0 < k \<and> k < qn"
  using sample_k_result [of rnd n qn pos "(k, pos')"] by simp

lemma BN_leftPad: "BN (leftPad buf len) = BN buf"
  by (simp add: leftPad_def)

lemma verify_accepts:
  assumes q: "is_prime qn"
    and gq: "gn ^ qn mod pn = 1"
    and k: "0 < k" "k < qn"
    and r: "r = (gn ^ k mod pn) mod qn"
    and s: "s = ((xn * r + z) mod qn * (k ^ (qn - 2) mod qn)) mod qn" "s \<noteq> 0"
    and w: "(s * w) mod qn = 1"
  shows "(((gn ^ ((z * w) mod qn) mod pn)
            * ((gn ^ xn mod pn) ^ ((r * w) mod qn) mod pn)) mod pn) mod qn = r"
proof -
  have ki: "(k * (k ^ (qn - 2) mod qn)) mod qn = 1"
    using q k by (rule fermat_inverse)
  have e: "((z * w) mod qn + xn * ((r * w) mod qn)) mod qn = k"
    using q k s ki w by (rule dsa_exponent)
  have "((gn ^ ((z * w) mod qn) mod pn)
            * ((gn ^ xn mod pn) ^ ((r * w) mod qn) mod pn)) mod pn = gn ^ k mod pn"
    using gq e by (rule dsa_verify_value)
  then show ?thesis by (simp only: r)
qed

lemma bitLength_multiple_gt1:
  assumes "0 < qn" "bitLength qn mod 8 = 0"
  shows "1 < qn"
proof (rule ccontr)
  assume "\<not> 1 < qn"
  with assms(1) have "qn = 1" by simp
  then have "bitLength qn = 1" by (simp add: bitLength.simps)
  with assms(2) show False by simp
qed

lemma is_prime_iff_no_divisor:
  "is_prime p \<longleftrightarrow> 1 < p \<and> (\<forall>d\<in>{2..<p}. \<not> d dvd p)"
proof
  assume p: "is_prime p"
  then have "1 < p" by (rule is_prime_gt1)
  moreover have "\<not> d dvd p" if "d \<in> {2..<p}" for d
    using p that by (auto simp: is_prime_def)
  ultimately show "1 < p \<and> (\<forall>d\<in>{2..<p}. \<not> d dvd p)" by blast
next
  assume a: "1 < p \<and> (\<forall>d\<in>{2..<p}. \<not> d dvd p)"
  have "d = 1 \<or> d = p" if "d dvd p" for d
  proof -
    have "d \<le> p" using that a by (auto dest: dvd_imp_le)
    moreover have "d \<noteq> 0" using that a by (cases "d = 0") auto
    moreover have "\<not> (2 \<le> d \<and> d < p)" using that a by auto
    ultimately show ?thesis by arith
  qed
  with a show "is_prime p" by (simp add: is_prime_def)
qed

lemma is_prime_131: "is_prime 131"
  unfolding is_prime_iff_no_divisor by code_simp

subsection \<open>The sampling loop and the attempts of \<open>sign\<close>\<close>

lemma draw_0: "draw rnd n pos 0 = BN (randomFill rnd pos n)"
  by (simp add: draw_def)

lemma draw_Suc: "draw rnd n pos (Suc j) = draw rnd n (pos + n) j"
  by (simp add: draw_def add.assoc)

lemma sample_k_accept:
  "draw rnd n pos 0 \<noteq> 0 \<and> draw rnd n pos 0 < qn
   \<Longrightarrow> sample_k rnd n qn pos = Some (draw rnd n pos 0, pos + n)"
  by (subst sample_k.simps) (simp add: draw_0 Let_def)

lemma sample_k_reject:
  "\<not> (draw rnd n pos 0 \<noteq> 0 \<and> draw rnd n pos 0 < qn)
   \<Longrightarrow> sample_k rnd n qn pos = sample_k rnd n qn (pos + n)"
  by (subst sample_k.simps) (auto simp: draw_0 Let_def)

lemma sample_k_first:
  assumes "\<forall>i<j. \<not> (draw rnd n pos i \<noteq> 0 \<and> draw rnd n pos i < qn)"
    and "draw rnd n pos j \<noteq> 0 \<and> draw rnd n pos j < qn"
  shows "sample_k rnd n qn pos = Some (draw rnd n pos j, pos + (j + 1) * n)"
  using assms
proof (induction j arbitrary: pos)
  case 0
  then show ?case using sample_k_accept [of rnd n pos qn] by simp
next
  case (Suc j)
  have rej: "\<not> (draw rnd n pos 0 \<noteq> 0 \<and> draw rnd n pos 0 < qn)"
    using Suc.prems(1) by blast
  have "\<forall>i<j. \<not> (draw rnd n (pos + n) i \<noteq> 0 \<and> draw rnd n (pos + n) i < qn)"
    using Suc.prems(1) by (auto simp: draw_Suc [symmetric])
  moreover have "draw rnd n (pos + n) j \<noteq> 0 \<and> draw rnd n (pos + n) j < qn"
    using Suc.prems(2) by (simp add: draw_Suc)
  ultimately have "sample_k rnd n qn (pos + n)
      = Some (draw rnd n (pos + n) j, pos + n + (j + 1) * n)"
    by (rule Suc.IH)
  then show ?case
    using sample_k_reject [OF rej] by (simp add: draw_Suc algebra_simps)
qed

lemma sample_k_Some:
  assumes "sample_k rnd n qn pos = Some res"
  shows "\<exists>j. res = (draw rnd n pos j, pos + (j + 1) * n)
            \<and> (draw rnd n pos j \<noteq> 0 \<and> draw rnd n pos j < qn)
            \<and> (\<forall>i<j. \<not> (draw rnd n pos i \<noteq> 0 \<and> draw rnd n pos i < qn))"
proof (rule sample_k.raw_induct
    [where P = "\<lambda>rnd n qn pos res. \<exists>j. res = (draw rnd n pos j, pos + (j + 1) * n)
            \<and> (draw rnd n pos j \<noteq> 0 \<and> draw rnd n pos j < qn)
            \<and> (\<forall>i<j. \<not> (draw rnd n pos i \<noteq> 0 \<and> draw rnd n pos i < qn))", OF _ assms])
  fix sk :: "tape \<Rightarrow> nat \<Rightarrow> nat \<Rightarrow> nat \<Rightarrow> (nat \<times> nat) option"
    and rnd n qn pos res
  assume IH: "\<And>rnd n qn pos res. sk rnd n qn pos = Some res \<Longrightarrow>
      \<exists>j. res = (draw rnd n pos j, pos + (j + 1) * n)
            \<and> (draw rnd n pos j \<noteq> 0 \<and> draw rnd n pos j < qn)
            \<and> (\<forall>i<j. \<not> (draw rnd n pos i \<noteq> 0 \<and> draw rnd n pos i < qn))"
    and body: "(let k = BN (randomFill rnd pos n)
                in if k \<noteq> 0 \<and> k < qn then Some (k, pos + n) else sk rnd n qn (pos + n)) = Some res"
  show "\<exists>j. res = (draw rnd n pos j, pos + (j + 1) * n)
            \<and> (draw rnd n pos j \<noteq> 0 \<and> draw rnd n pos j < qn)
            \<and> (\<forall>i<j. \<not> (draw rnd n pos i \<noteq> 0 \<and> draw rnd n pos i < qn))"
  proof (cases "draw rnd n pos 0 \<noteq> 0 \<and> draw rnd n pos 0 < qn")
    case True
    with body have "res = (draw rnd n pos 0, pos + n)"
      by (auto simp: draw_0 Let_def)
    with True show ?thesis by (intro exI [of _ 0]) simp
  next
    case False
    with body have "sk rnd n qn (pos + n) = Some res"
      by (auto simp: draw_0 Let_def)
    from IH [OF this] obtain j where j: "res = (draw rnd n (pos + n) j, pos + n + (j + 1) * n)"
      "draw rnd n (pos + n) j \<noteq> 0 \<and> draw rnd n (pos + n) j < qn"
      "\<forall>i<j. \<not> (draw rnd n (pos + n) i \<noteq> 0 \<and> draw rnd n (pos + n) i < qn)"
      by blast
    have "\<forall>i<Suc j. \<not> (draw rnd n pos i \<noteq> 0 \<and> draw rnd n pos i < qn)"
      unfolding All_less_Suc2 using False j(3) by (simp add: draw_Suc)
    with j(1,2) show ?thesis
      by (intro exI [of _ "Suc j"]) (simp add: draw_Suc algebra_simps)
  qed
qed

lemma nth_k_range:
  "nth_k rnd n qn pos i = Some (k, pos') \<Longrightarrow> 0 < k \<and> k < qn"
proof (induction i arbitrary: pos)
  case 0
  then show ?case using sample_k_range by simp
next
  case (Suc i)
  then show ?case by (auto split: option.splits)
qed

lemma sign_loop_None:
  "sample_k rnd n qn pos = None \<Longrightarrow> sign_loop rnd n pn qn gn xn m (Suc a) r0 s0 pos = None"
  by simp

lemma sign_loop_throws:
  assumes "sample_k rnd n qn pos = Some (k, pos1)"
    and "pn \<le> 1 \<or> qn \<le> 1"
  shows "sign_loop rnd n pn qn gn xn m (Suc a) r0 s0 pos
         = Some (Inl (Error ''modulus must be greater than 1''))"
proof (cases "qn \<le> 1")
  case True
  with assms(1) show ?thesis by (simp add: fermatInverse_Inl)
next
  case False
  then have "1 < qn" "pn \<le> 1" using assms(2) by simp_all
  with assms(1) show ?thesis by (simp add: fermatInverse_Inr modPow_Inl)
qed

lemma sign_loop_fail:
  assumes "sample_k rnd n qn pos = Some (k, pos1)"
    and "attempt_fails pn qn gn xn (BN m) k"
    and "1 < pn" "1 < qn"
  shows "\<exists>r' s'. sign_loop rnd n pn qn gn xn m (Suc a) r0 s0 pos
                 = sign_loop rnd n pn qn gn xn m a r' s' pos1"
  using assms
  by (auto simp: attempt_fails_def attempt_r_def attempt_s_def Let_def fermatInverse_Inr
      modPow_Inr)

lemma sign_loop_ok:
  assumes "sample_k rnd n qn pos = Some (k, pos1)"
    and "\<not> attempt_fails pn qn gn xn (BN m) k"
    and "1 < pn" "1 < qn"
  shows "sign_loop rnd n pn qn gn xn m (Suc a) r0 s0 pos
         = Some (Inr (Suc a, attempt_r pn qn gn k, attempt_s pn qn gn xn (BN m) k, pos1))"
  using assms
  by (auto simp: attempt_fails_def attempt_r_def attempt_s_def Let_def fermatInverse_Inr
      modPow_Inr)

lemma sign_loop_exhaust_iff:
  assumes "1 < pn" "1 < qn"
  shows "(\<exists>r s p'. sign_loop rnd n pn qn gn xn m a r0 s0 pos = Some (Inr (0, r, s, p')))
   \<longleftrightarrow> (\<forall>i<a. \<exists>k p'. nth_k rnd n qn pos i = Some (k, p') \<and> attempt_fails pn qn gn xn (BN m) k)"
proof (induction a arbitrary: r0 s0 pos)
  case 0
  show ?case by simp
next
  case (Suc a)
  show ?case
  proof (cases "sample_k rnd n qn pos")
    case None
    then show ?thesis unfolding All_less_Suc2 by simp
  next
    case (Some res)
    obtain k pos1 where res: "res = (k, pos1)" by (cases res)
    note sk = Some [unfolded res]
    show ?thesis
    proof (cases "attempt_fails pn qn gn xn (BN m) k")
      case True
      from sign_loop_fail [OF sk True assms] obtain r' s' where
        eq: "sign_loop rnd n pn qn gn xn m (Suc a) r0 s0 pos
             = sign_loop rnd n pn qn gn xn m a r' s' pos1" by blast
      show ?thesis
        unfolding All_less_Suc2 eq Suc.IH [of r' s' pos1]
        using sk True by simp
    next
      case False
      show ?thesis
        unfolding All_less_Suc2 sign_loop_ok [OF sk False assms]
        using sk False by simp
    qed
  qed
qed

lemma sign_loop_moduli:
  assumes "sign_loop rnd n pn qn gn xn m a r0 s0 pos = Some (Inr (a', r, s, p'))"
    and "a' \<noteq> 0"
  shows "1 < pn \<and> 1 < qn"
proof (rule ccontr)
  assume "\<not> (1 < pn \<and> 1 < qn)"
  then have small: "pn \<le> 1 \<or> qn \<le> 1" by auto
  show False
  proof (cases a)
    case 0
    with assms show False by simp
  next
    case (Suc a1)
    show False
    proof (cases "sample_k rnd n qn pos")
      case None
      with assms(1) Suc show False by simp
    next
      case (Some res)
      obtain k pos1 where res: "res = (k, pos1)" by (cases res)
      from sign_loop_throws [OF Some [unfolded res] small] assms(1) Suc show False by simp
    qed
  qed
qed

lemma sign_loop_success:
  assumes "sign_loop rnd n pn qn gn xn m a r0 s0 pos = Some (Inr (a', r, s, p'))"
    and "a' \<noteq> 0"
  shows "\<exists>i<a. \<exists>k. nth_k rnd n qn pos i = Some (k, p')
           \<and> \<not> attempt_fails pn qn gn xn (BN m) k
           \<and> (\<forall>j<i. \<exists>kj pj. nth_k rnd n qn pos j = Some (kj, pj)
                        \<and> attempt_fails pn qn gn xn (BN m) kj)
           \<and> r = attempt_r pn qn gn k \<and> s = attempt_s pn qn gn xn (BN m) k"
proof -
  from sign_loop_moduli [OF assms] have big: "1 < pn" "1 < qn" by simp_all
  show ?thesis
    using assms
  proof (induction a arbitrary: r0 s0 pos)
    case 0
    then show ?case by simp
  next
    case (Suc a)
    from Suc.prems(1) obtain k pos1 where sk: "sample_k rnd n qn pos = Some (k, pos1)"
      by (cases "sample_k rnd n qn pos") auto
    show ?case
    proof (cases "attempt_fails pn qn gn xn (BN m) k")
      case True
      from sign_loop_fail [OF sk True big] obtain r' s' where
        eq: "sign_loop rnd n pn qn gn xn m (Suc a) r0 s0 pos
             = sign_loop rnd n pn qn gn xn m a r' s' pos1" by blast
      with Suc.prems(1)
      have "sign_loop rnd n pn qn gn xn m a r' s' pos1 = Some (Inr (a', r, s, p'))"
        by simp
      from Suc.IH [OF this Suc.prems(2)] obtain i k' where i: "i < a"
        "nth_k rnd n qn pos1 i = Some (k', p')"
        "\<not> attempt_fails pn qn gn xn (BN m) k'"
        "\<forall>j<i. \<exists>kj pj. nth_k rnd n qn pos1 j = Some (kj, pj)
                          \<and> attempt_fails pn qn gn xn (BN m) kj"
        "r = attempt_r pn qn gn k'" "s = attempt_s pn qn gn xn (BN m) k'"
        by blast
      have "\<forall>j<Suc i. \<exists>kj pj. nth_k rnd n qn pos j = Some (kj, pj)
                          \<and> attempt_fails pn qn gn xn (BN m) kj"
        unfolding All_less_Suc2 using sk True i(4) by simp
      with i sk show ?thesis
        by (intro exI [of _ "Suc i"] conjI exI [of _ k']) simp_all
    next
      case False
      from Suc.prems(1) sign_loop_ok [OF sk False big, of a r0 s0]
      have "r = attempt_r pn qn gn k" "s = attempt_s pn qn gn xn (BN m) k" "p' = pos1"
        by simp_all
      with sk False show ?thesis
        by (intro exI [of _ 0] conjI exI [of _ k]) simp_all
    qed
  qed
qed

lemma sign_loop_progress:
  assumes "i < a"
    and "nth_k rnd n qn pos i = Some (k, p')"
    and "\<not> attempt_fails pn qn gn xn (BN m) k"
    and "\<forall>j<i. \<exists>kj pj. nth_k rnd n qn pos j = Some (kj, pj)
                        \<and> attempt_fails pn qn gn xn (BN m) kj"
    and big: "1 < pn" "1 < qn"
  shows "sign_loop rnd n pn qn gn xn m a r0 s0 pos
         = Some (Inr (a - i, attempt_r pn qn gn k, attempt_s pn qn gn xn (BN m) k, p'))"
  using assms(1-4)
proof (induction i arbitrary: a r0 s0 pos)
  case 0
  then obtain a1 where a: "a = Suc a1" by (cases a) auto
  from 0 have sk: "sample_k rnd n qn pos = Some (k, p')" by simp
  show ?case unfolding a using sign_loop_ok [OF sk "0.prems"(3) big] by simp
next
  case (Suc i)
  then obtain a1 where a: "a = Suc a1" by (cases a) auto
  from Suc.prems(4) obtain k0 p0 where k0: "nth_k rnd n qn pos 0 = Some (k0, p0)"
    "attempt_fails pn qn gn xn (BN m) k0" by blast
  then have sk: "sample_k rnd n qn pos = Some (k0, p0)" by simp
  from sign_loop_fail [OF sk k0(2) big] obtain r' s' where
    eq: "sign_loop rnd n pn qn gn xn m (Suc a1) r0 s0 pos
         = sign_loop rnd n pn qn gn xn m a1 r' s' p0" by blast
  have n1: "nth_k rnd n qn p0 i = Some (k, p')" using Suc.prems(2) sk by simp
  have n2: "\<forall>j<i. \<exists>kj pj. nth_k rnd n qn p0 j = Some (kj, pj)
                        \<and> attempt_fails pn qn gn xn (BN m) kj"
  proof (intro allI impI)
    fix j assume "j < i"
    then have "Suc j < Suc i" by simp
    with Suc.prems(4) obtain kj pj where "nth_k rnd n qn pos (Suc j) = Some (kj, pj)"
      "attempt_fails pn qn gn xn (BN m) kj" by blast
    with sk show "\<exists>kj pj. nth_k rnd n qn p0 j = Some (kj, pj)
                        \<and> attempt_fails pn qn gn xn (BN m) kj" by simp
  qed
  have "i < a1" using Suc.prems(1) a by simp
  from Suc.IH [OF this n1 Suc.prems(3) n2, of r' s'] show ?case
    unfolding a eq by simp
qed

subsection \<open>Buffers of a given length\<close>

lemma BN_zero_replicate: "BN xs = 0 \<Longrightarrow> xs = replicate (length xs) 0"
proof (induction xs rule: rev_induct)
  case Nil
  show ?case by simp
next
  case (snoc x xs)
  then have "BN xs = 0" "unat x = 0" by simp_all
  then have "xs = replicate (length xs) 0" "x = 0" using snoc.IH by (simp_all add: unat_eq_0)
  then have "xs @ [x] = replicate (length xs) 0 @ [0]" by simp
  also have "\<dots> = replicate (Suc (length xs)) 0" by (simp add: replicate_append_same)
  finally show ?case by simp
qed

lemma toArrayLike_0: "toArrayLike 0 = []"
  by (subst toArrayLike.simps) simp

lemma toArrayLike_snoc:
  assumes "BN xs * 256 + unat x \<noteq> 0"
  shows "toArrayLike (BN xs * 256 + unat x) = toArrayLike (BN xs) @ [x]"
proof -
  have lt: "unat x < 256" using unsigned_less [of x, where 'a = nat] by simp
  have d: "(BN xs * 256 + unat x) div 256 = BN xs" using lt by simp
  have m: "(BN xs * 256 + unat x) mod 256 = unat x" using lt by simp
  have "toArrayLike (BN xs * 256 + unat x)
        = (if BN xs * 256 + unat x = 0 then []
           else toArrayLike ((BN xs * 256 + unat x) div 256)
                  @ [of_nat ((BN xs * 256 + unat x) mod 256)])"
    by (rule toArrayLike.simps)
  also have "\<dots> = toArrayLike (BN xs) @ [of_nat (unat x)]"
    using assms by (simp only: d m if_False)
  also have "of_nat (unat x) = x" by simp
  finally show ?thesis .
qed

lemma leftPad_toArrayLike_BN: "leftPad (toArrayLike (BN xs)) (length xs) = xs"
proof (induction xs rule: rev_induct)
  case Nil
  show ?case by (simp add: leftPad_def toArrayLike_0)
next
  case (snoc x xs)
  show ?case
  proof (cases "BN xs * 256 + unat x = 0")
    case True
    then have z: "BN (xs @ [x]) = 0" by simp
    have "leftPad (toArrayLike (BN (xs @ [x]))) (length (xs @ [x]))
          = replicate (length (xs @ [x])) 0"
      unfolding z by (simp add: leftPad_def toArrayLike_0)
    also have "\<dots> = xs @ [x]"
      using BN_zero_replicate [OF z] by simp
    finally show ?thesis .
  next
    case False
    have "leftPad (toArrayLike (BN xs) @ [x]) (Suc (length xs))
             = leftPad (toArrayLike (BN xs)) (length xs) @ [x]"
      by (simp only: leftPad_def length_append_singleton diff_Suc_Suc append_assoc)
    also have "\<dots> = xs @ [x]" by (simp only: snoc)
    finally show ?thesis
      by (simp only: BN_snoc toArrayLike_snoc [OF False] length_append_singleton)
  qed
qed

lemma BN_inj:
  assumes "length xs = length ys" "BN xs = BN ys"
  shows "xs = ys"
proof -
  have "xs = leftPad (toArrayLike (BN xs)) (length xs)"
    by (rule leftPad_toArrayLike_BN [symmetric])
  also have "\<dots> = leftPad (toArrayLike (BN ys)) (length ys)"
    by (simp only: assms)
  also have "\<dots> = ys" by (rule leftPad_toArrayLike_BN)
  finally show ?thesis .
qed

lemma length_leftPad: "length buf \<le> len \<Longrightarrow> length (leftPad buf len) = len"
  by (simp add: leftPad_def)

lemma unique_buffer:
  assumes "k < 256 ^ n"
  shows "\<exists>!buf. length buf = n \<and> BN buf = k"
proof (rule ex1I [of _ "leftPad (toArrayLike k) n"])
  have "length (toArrayLike k) \<le> n" using assms by (simp add: length_toArrayLike_le)
  then show "length (leftPad (toArrayLike k) n) = n \<and> BN (leftPad (toArrayLike k) n) = k"
    by (simp add: length_leftPad BN_leftPad)
next
  fix buf assume b: "length buf = n \<and> BN buf = k"
  have "buf = leftPad (toArrayLike (BN buf)) (length buf)"
    by (rule leftPad_toArrayLike_BN [symmetric])
  also have "\<dots> = leftPad (toArrayLike k) n" using b by (simp only:)
  finally show "buf = leftPad (toArrayLike k) n" .
qed

lemma less_256_power_bitLength:
  assumes "bitLength qn mod 8 = 0" "k < qn"
  shows "k < 256 ^ (bitLength qn div 8)"
proof -
  have "qn < 2 ^ bitLength qn" using bitLength_le [of qn "bitLength qn"] by simp
  also have "bitLength qn = 8 * (bitLength qn div 8)" using assms(1) by auto
  also have "(2::nat) ^ (8 * (bitLength qn div 8)) = 256 ^ (bitLength qn div 8)"
    by (simp add: power_mult)
  finally show ?thesis using assms(2) by simp
qed

lemma sign_unfold:
  assumes "0 < BN (key_q K)" "0 < BN (key_p K)" "0 < BN (key_g K)" "0 < BN (key_x K)"
    and "bitLength (BN (key_q K)) mod 8 = 0"
  shows "sign rnd pos (JBuffer m) (JDSAPrivateKey K) =
     (case sign_loop rnd (bitLength (BN (key_q K)) div 8) (BN (key_p K)) (BN (key_q K))
             (BN (key_g K)) (BN (key_x K)) m 10 0 0 pos of
        None \<Rightarrow> None
      | Some (Inl e) \<Rightarrow> Some (Inl e)
      | Some (Inr (attempts, r, s, pos')) \<Rightarrow>
          if attempts = 0 then Some (Inl (Error ''Could not sign.''))
          else Some (Inr (setS (setR (new_DSASignature (key_size K)) (toBuffer r))
                              (toBuffer s), pos')))"
  using assms by (simp add: sign_def Let_def and7_eq_mod8 drop_bit3_eq_div8)

lemma sign_Inr_checks:
  assumes "sign rnd pos (JBuffer m) (JDSAPrivateKey K) = Some (Inr (sg, pos'))"
  shows "0 < BN (key_q K) \<and> 0 < BN (key_p K) \<and> 0 < BN (key_g K) \<and> 0 < BN (key_x K)
       \<and> bitLength (BN (key_q K)) mod 8 = 0"
  using assms by (auto simp: sign_def Let_def and7_eq_mod8 split: if_splits)

lemma sign_Inr_loop:
  assumes sg: "sign rnd pos (JBuffer m) (JDSAPrivateKey K) = Some (Inr (sg, pos'))"
  shows "\<exists>a r s. sign_loop rnd (bitLength (BN (key_q K)) div 8) (BN (key_p K)) (BN (key_q K))
             (BN (key_g K)) (BN (key_x K)) m 10 0 0 pos = Some (Inr (a, r, s, pos'))
           \<and> a \<noteq> 0
           \<and> sg = setS (setR (new_DSASignature (key_size K)) (toBuffer r)) (toBuffer s)"
proof -
  note chk = sign_Inr_checks [OF sg]
  have un: "sign rnd pos (JBuffer m) (JDSAPrivateKey K) =
     (case sign_loop rnd (bitLength (BN (key_q K)) div 8) (BN (key_p K)) (BN (key_q K))
             (BN (key_g K)) (BN (key_x K)) m 10 0 0 pos of
        None \<Rightarrow> None
      | Some (Inl e) \<Rightarrow> Some (Inl e)
      | Some (Inr (attempts, r, s, pos')) \<Rightarrow>
          if attempts = 0 then Some (Inl (Error ''Could not sign.''))
          else Some (Inr (setS (setR (new_DSASignature (key_size K)) (toBuffer r))
                              (toBuffer s), pos')))"
    using chk by (intro sign_unfold) simp_all
  from sg [unfolded un] show ?thesis
    by (auto split: option.splits sum.splits prod.splits if_splits)
qed

lemma sign_Inr_moduli:
  assumes sg: "sign rnd pos (JBuffer m) (JDSAPrivateKey K) = Some (Inr (sg, pos'))"
  shows "1 < BN (key_p K) \<and> 1 < BN (key_q K)"
proof -
  from sign_Inr_loop [OF sg] obtain a r s where
    loop: "sign_loop rnd (bitLength (BN (key_q K)) div 8) (BN (key_p K)) (BN (key_q K))
             (BN (key_g K)) (BN (key_x K)) m 10 0 0 pos = Some (Inr (a, r, s, pos'))"
    and a: "a \<noteq> 0"
    by blast
  from sign_loop_moduli [OF loop a] show ?thesis .
qed

lemma sign_Inr_attempt:
  assumes sg: "sign rnd pos (JBuffer m) (JDSAPrivateKey K) = Some (Inr (sg, pos'))"
  shows "\<exists>i<10. \<exists>k. nth_k rnd (bitLength (BN (key_q K)) div 8) (BN (key_q K)) pos i = Some (k, pos')
           \<and> \<not> attempt_fails (BN (key_p K)) (BN (key_q K)) (BN (key_g K)) (BN (key_x K)) (BN m) k
           \<and> (\<forall>j<i. \<exists>kj pj. nth_k rnd (bitLength (BN (key_q K)) div 8) (BN (key_q K)) pos j
                              = Some (kj, pj)
                 \<and> attempt_fails (BN (key_p K)) (BN (key_q K)) (BN (key_g K)) (BN (key_x K)) (BN m) kj)
           \<and> sg = setS (setR (new_DSASignature (key_size K))
                     (toBuffer (attempt_r (BN (key_p K)) (BN (key_q K)) (BN (key_g K)) k)))
                     (toBuffer (attempt_s (BN (key_p K)) (BN (key_q K)) (BN (key_g K))
                        (BN (key_x K)) (BN m) k))"
proof -
  from sign_Inr_loop [OF sg] obtain a r s where
    loop: "sign_loop rnd (bitLength (BN (key_q K)) div 8) (BN (key_p K)) (BN (key_q K))
             (BN (key_g K)) (BN (key_x K)) m 10 0 0 pos = Some (Inr (a, r, s, pos'))"
    and a: "a \<noteq> 0"
    and sgeq: "sg = setS (setR (new_DSASignature (key_size K)) (toBuffer r)) (toBuffer s)"
    by blast
  from sign_loop_success [OF loop a] sgeq show ?thesis by blast
qed

lemma attempt_values:
  assumes "\<not> attempt_fails pn qn gn xn z k"
  shows "attempt_r pn qn gn k \<noteq> 0" "attempt_s pn qn gn xn z k \<noteq> 0"
  using assms by (simp_all add: attempt_fails_def)

lemma toPublic_fields:
  "key_p (toPublic K) = key_p K" "key_q (toPublic K) = key_q K"
  "key_g (toPublic K) = key_g K" "key_y (toPublic K) = key_y K"
  by (simp_all add: toPublic_def new_DSAPublicKey_def new_DSAKey_def)

lemma signature_values:
  "BN (sig_r (setS (setR (new_DSASignature len) (toBuffer r)) (toBuffer s))) = r"
  "BN (sig_s (setS (setR (new_DSASignature len) (toBuffer r)) (toBuffer s))) = s"
  by (simp_all add: setR_def setS_def new_DSASignature_def BN_leftPad toBuffer_def)


subsection \<open>Running \<open>sign\<close> on the key \<open>K0\<close>\<close>

lemma bitLength_131: "bitLength 131 = 8"
  by (rule bitLength_eq) simp_all

lemma sample_const: "sample_k (\<lambda>i. 5) (Suc 0) 131 pos = Some (5, Suc pos)"
  by (subst sample_k.simps) (simp add: randomFill_def BN_def)

lemma loop_K0:
  "sign_loop (\<lambda>i. 5) (Suc 0) 263 131 4 7 [66] 10 0 0 0 = Some (Inr (10, 104, 54, Suc 0))"
proof -
  have ten: "(10::nat) = Suc 9" by simp
  show ?thesis
    by (subst ten, subst sign_loop.simps(2))
       (simp add: sample_const fermatInverse_Inr modPow_Inr BN_def Let_def)
qed

lemma toBuffer_104: "toBuffer 104 = [104]" and toBuffer_54: "toBuffer 54 = [54]"
  by (simp_all add: toBuffer_def toArrayLike.simps)

lemma sign_K0:
  "sign (\<lambda>i. 5) 0 (JBuffer [66]) (JDSAPrivateKey K0)
     = Some (Inr (\<lparr> sig_size = 1, sig_r = [104], sig_s = [54] \<rparr>, 1))"
  by (simp add: sign_def K0_def BN_def bitLength_131 and7_eq_mod8 drop_bit3_eq_div8 loop_K0
      key_size_def key_N_def countLeft_def toBuffer_104 toBuffer_54 setR_def setS_def
      new_DSASignature_def leftPad_def)

lemma K0_valid:
  "is_prime (BN (key_q K0))"
  "BN (key_g K0) ^ BN (key_q K0) mod BN (key_p K0) = 1"
  "BN (key_y K0) = BN (key_g K0) ^ BN (key_x K0) mod BN (key_p K0)"
  by (simp_all add: K0_def BN_def is_prime_131)

lemma sample_k_iff:
  "sample_k rnd n qn pos = Some (k, pos') \<longleftrightarrow>
     (\<exists>j. k = draw rnd n pos j \<and> pos' = pos + (j + 1) * n \<and> 1 \<le> k \<and> k \<le> qn - 1
          \<and> (\<forall>i<j. \<not> (1 \<le> draw rnd n pos i \<and> draw rnd n pos i \<le> qn - 1)))"
proof
  assume "sample_k rnd n qn pos = Some (k, pos')"
  from sample_k_Some [OF this] obtain j where j: "(k, pos') = (draw rnd n pos j, pos + (j + 1) * n)"
    "draw rnd n pos j \<noteq> 0 \<and> draw rnd n pos j < qn"
    "\<forall>i<j. \<not> (draw rnd n pos i \<noteq> 0 \<and> draw rnd n pos i < qn)"
    by blast
  have "\<forall>i<j. \<not> (1 \<le> draw rnd n pos i \<and> draw rnd n pos i \<le> qn - 1)"
  proof (intro allI impI)
    fix i assume "i < j"
    with j(3) have "\<not> (draw rnd n pos i \<noteq> 0 \<and> draw rnd n pos i < qn)" by blast
    then show "\<not> (1 \<le> draw rnd n pos i \<and> draw rnd n pos i \<le> qn - 1)" by arith
  qed
  moreover have "1 \<le> k \<and> k \<le> qn - 1" using j(1,2) by auto
  ultimately show "\<exists>j. k = draw rnd n pos j \<and> pos' = pos + (j + 1) * n \<and> 1 \<le> k \<and> k \<le> qn - 1
          \<and> (\<forall>i<j. \<not> (1 \<le> draw rnd n pos i \<and> draw rnd n pos i \<le> qn - 1))"
    using j(1) by blast
next
  assume "\<exists>j. k = draw rnd n pos j \<and> pos' = pos + (j + 1) * n \<and> 1 \<le> k \<and> k \<le> qn - 1
          \<and> (\<forall>i<j. \<not> (1 \<le> draw rnd n pos i \<and> draw rnd n pos i \<le> qn - 1))"
  then obtain j where j: "k = draw rnd n pos j" "pos' = pos + (j + 1) * n" "1 \<le> k" "k \<le> qn - 1"
    "\<forall>i<j. \<not> (1 \<le> draw rnd n pos i \<and> draw rnd n pos i \<le> qn - 1)"
    by blast
  have a: "\<forall>i<j. \<not> (draw rnd n pos i \<noteq> 0 \<and> draw rnd n pos i < qn)"
  proof (intro allI impI)
    fix i assume "i < j"
    with j(5) have "\<not> (1 \<le> draw rnd n pos i \<and> draw rnd n pos i \<le> qn - 1)" by blast
    then show "\<not> (draw rnd n pos i \<noteq> 0 \<and> draw rnd n pos i < qn)" by arith
  qed
  have b: "draw rnd n pos j \<noteq> 0 \<and> draw rnd n pos j < qn" using j(1,3,4) by arith
  from sample_k_first [OF a b] j(1,2) show "sample_k rnd n qn pos = Some (k, pos')" by simp
qed


lemma nth_k_const: "nth_k (\<lambda>i. 5) (Suc 0) 131 pos i = Some (5, Suc (pos + i))"
  by (induction i arbitrary: pos) (simp_all add: sample_const)

lemma K0_attempt_fails: "attempt_fails 263 131 4 7 58 5"
  by (simp add: attempt_fails_def attempt_r_def attempt_s_def)


section \<open>Lemmas about the native engine and signature sizes\<close>

lemma bitLength_0: "bitLength 0 = 0"
  by (subst bitLength.simps) simp

lemma count_oct_eq: "count_oct oct bits = bits + bitLength oct"
proof (induction oct bits rule: count_oct.induct)
  case (1 oct bits)
  show ?case
  proof (cases "oct = 0")
    case True
    then show ?thesis by (simp add: count_oct.simps bitLength_0)
  next
    case False
    have "count_oct oct bits = count_oct (oct div 2) (bits + 1)"
      using False by (subst count_oct.simps) simp
    also have "\<dots> = bits + 1 + bitLength (oct div 2)" using "1.IH" [OF False] .
    also have "\<dots> = bits + bitLength oct"
      using False by (subst (2) bitLength.simps) simp
    finally show ?thesis .
  qed
qed

lemma bitLength_shift:
  assumes "0 < m" "r < 2 ^ k"
  shows "bitLength (m * 2 ^ k + r) = k + bitLength m"
proof (rule bitLength_eq)
  have bl: "0 < bitLength m" using assms(1) by (subst bitLength.simps) simp
  show "0 < k + bitLength m" using bl by simp
  have up: "m < 2 ^ bitLength m" using bitLength_le [of m "bitLength m"] by simp
  then have "m + 1 \<le> 2 ^ bitLength m" by simp
  then have "(m + 1) * 2 ^ k \<le> 2 ^ bitLength m * 2 ^ k" by (rule mult_le_mono1)
  moreover have "m * 2 ^ k + r < (m + 1) * 2 ^ k" using assms(2) by (simp add: algebra_simps)
  ultimately show "m * 2 ^ k + r < 2 ^ (k + bitLength m)"
    by (simp add: power_add mult.commute)
  have "\<not> bitLength m \<le> bitLength m - 1" using bl by simp
  with bitLength_le [of m "bitLength m - 1"] have "\<not> m < 2 ^ (bitLength m - 1)" by blast
  then have "2 ^ (bitLength m - 1) \<le> m" by simp
  then have A: "2 ^ (bitLength m - 1) * 2 ^ k \<le> m * 2 ^ k" by (rule mult_le_mono1)
  have B: "k + bitLength m - 1 = (bitLength m - 1) + k" using bl by simp
  have "(2::nat) ^ (k + bitLength m - 1) = 2 ^ (bitLength m - 1) * 2 ^ k"
    by (simp only: B power_add)
  with A show "2 ^ (k + bitLength m - 1) \<le> m * 2 ^ k + r" by linarith
qed

lemma BN_dropWhile_zero: "BN (dropWhile (\<lambda>b. b = 0) buf) = BN buf"
  by (induction buf) (simp_all add: BN_Cons)

lemma bcrypto_count_bits_eq: "bcrypto_count_bits inp = bitLength (BN_bin2bn inp)"
proof (cases inp)
  case None
  then show ?thesis by (simp add: bcrypto_count_bits_def BN_bin2bn_def bitLength_0)
next
  case (Some buf)
  show ?thesis
  proof (cases "dropWhile (\<lambda>b. b = 0) buf")
    case Nil
    have "BN buf = BN (dropWhile (\<lambda>b. b = 0) buf)" by (rule BN_dropWhile_zero [symmetric])
    also have "\<dots> = BN []" by (simp only: Nil)
    finally have z: "BN buf = 0" by simp
    show ?thesis
      by (simp only: Some bcrypto_count_bits_def BN_bin2bn_def option.case Nil list.case z
          bitLength_0)
  next
    case (Cons b rest)
    have bnz: "b \<noteq> 0" using Cons hd_dropWhile [of "\<lambda>b. b = 0" buf] by auto
    then have m: "0 < unat b" by (simp add: unat_gt_0)
    have r: "BN rest < 2 ^ (8 * length rest)"
      using BN_less [of rest] by (simp add: power_mult)
    have "BN buf = BN (b # rest)" using BN_dropWhile_zero [of buf] Cons by simp
    also have "\<dots> = unat b * 2 ^ (8 * length rest) + BN rest"
      by (simp add: BN_Cons power_mult)
    finally have "bitLength (BN buf) = 8 * length rest + bitLength (unat b)"
      using bitLength_shift [OF m r] by simp
    with Cons Some show ?thesis
      by (simp add: bcrypto_count_bits_def BN_bin2bn_def count_oct_eq)
  qed
qed

lemma BN_bn2binpad_Some:
  assumes "BN_bn2binpad a len = Some buf"
  shows "length buf = len" and "BN buf = a" and "buf = leftPad (toArrayLike a) len"
proof -
  from assms have le: "BN_num_bytes a \<le> len"
    and buf: "buf = replicate (len - BN_num_bytes a) 0 @ toArrayLike a"
    by (auto simp: BN_bn2binpad_def split: if_splits)
  show "length buf = len" using le by (simp add: buf length_toArrayLike)
  show "BN buf = a" by (simp add: buf)
  show "buf = leftPad (toArrayLike a) len" by (simp add: buf leftPad_def length_toArrayLike)
qed

lemma key_size_eq: "key_size K = (bitLength (BN (key_q K)) + 7) div 8"
  by (simp add: key_size_def key_N_def countLeft_def drop_bit_eq_div)

lemma BN_num_bytes_mono: "a \<le> b \<Longrightarrow> BN_num_bytes a \<le> BN_num_bytes b"
  unfolding BN_num_bytes_def using bitLength_mono [of a b] by (simp add: div_le_mono)


lemma bitLength_small: "bitLength 128 = 8" "bitLength 2 = 2" "bitLength 3 = 2"
  by (rule bitLength_eq; simp)+

lemma count_bits_top:
  "bcrypto_count_bits (Some (128 # replicate n 0)) = 8 * n + 8"
  by (simp add: bcrypto_count_bits_def count_oct_eq bitLength_small)

lemma count_bits_small:
  "bcrypto_count_bits (Some [2]) = 2" "bcrypto_count_bits (Some [3]) = 2"
  by (simp_all add: bcrypto_count_bits_def count_oct_eq bitLength_small)

lemma priv0_sane: "bcrypto_dsa_sane_privkey (Some priv0)"
  by (simp add: bcrypto_dsa_sane_privkey_def bcrypto_dsa_sane_pubkey_def
      bcrypto_dsa_sane_params_def priv0_def count_bits_top count_bits_small)

lemma priv0_q_bits: "bitLength (BN_bin2bn (qd priv0)) = 160"
  using bcrypto_count_bits_eq [of "qd priv0"] by (simp add: priv0_def count_bits_top)

lemma toArrayLike_small: "toArrayLike 2 = [2]" "toArrayLike 3 = [3]"
  by (subst toArrayLike.simps, simp add: toArrayLike_0)+

lemma binpad_small:
  "BN_bn2binpad 2 20 = Some (replicate 19 0 @ [2])"
  "BN_bn2binpad 3 20 = Some (replicate 19 0 @ [3])"
  by (simp_all add: BN_bn2binpad_def BN_num_bytes_def bitLength_small toArrayLike_small)

lemma native_sign_priv0:
  "bcrypto_dsa_sign True (\<lambda>m d. Some (2, 3)) (Some [1]) (Some priv0)
     = Inr (Some (replicate 19 0 @ [2], replicate 19 0 @ [3]))"
proof -
  have k: "bcrypto_dsa_key2priv (Some priv0)
      = Some \<lparr> dsa_p = BN_bin2bn (pd priv0), dsa_q = BN_bin2bn (qd priv0),
               dsa_g = BN_bin2bn (gd priv0), dsa_pub_key = Some (BN_bin2bn (yd priv0)),
               dsa_priv_key = Some (BN_bin2bn (xd priv0)) \<rparr>"
    by (simp add: bcrypto_dsa_key2priv_def bcrypto_dsa_key2dsa_def)
  have rs: "bcrypto_dsa_sig2rs \<lparr> dsa_p = BN_bin2bn (pd priv0), dsa_q = BN_bin2bn (qd priv0),
               dsa_g = BN_bin2bn (gd priv0), dsa_pub_key = Some (BN_bin2bn (yd priv0)),
               dsa_priv_key = Some (BN_bin2bn (xd priv0)) \<rparr> (2, 3)
      = Inr (Some (replicate 19 0 @ [2], replicate 19 0 @ [3]))"
    by (simp add: bcrypto_dsa_sig2rs_def priv0_q_bits binpad_small BN_num_bytes_def bitLength_small)
  show ?thesis
    by (simp add: bcrypto_dsa_sign_def priv0_sane k rs)
qed


section \<open>Lemmas about the URL-safe base64 codec\<close>

lemma encode_groups_sextets: "encode_groups xs = map enc_char (sextets xs)"
  by (induction xs rule: sextets.induct) simp_all

lemma dec_enc_table: "list_all (\<lambda>i. dec_char (enc_char i) = Some i) [0..<64]"
  by code_simp

lemma dec_enc_char: "i < 64 \<Longrightarrow> dec_char (enc_char i) = Some i"
  using dec_enc_table by (simp add: list_all_iff)

lemma decode_chars_map:
  "\<forall>s\<in>set ss. s < 64 \<Longrightarrow> decode_chars (map enc_char ss) = Some ss"
  by (induction ss) (simp_all add: dec_enc_char)

lemma byte_parts:
  assumes "(x::nat) < 256"
  shows "x div 4 < 64" "x div 16 < 16" "x div 64 < 4"
  using assms by (simp_all add: div_less_iff_less_mult)

lemma sextets_less:
  "\<forall>x\<in>set xs. x < 256 \<Longrightarrow> \<forall>s\<in>set (sextets xs). s < 64"
proof (induction xs rule: sextets.induct)
  case (1 a b c rest)
  then have lt: "a < 256" "b < 256" "c < 256" and r: "\<forall>x\<in>set rest. x < 256" by simp_all
  have ih: "\<forall>s\<in>set (sextets rest). s < 64" using 1 r by simp
  have m: "a mod 4 < 4" "b mod 16 < 16" "c mod 64 < 64" by simp_all
  have "a div 4 < 64" using byte_parts [OF lt(1)] by simp
  moreover have "(a mod 4) * 16 + b div 16 < 64" using m(1) byte_parts(2) [OF lt(2)] by linarith
  moreover have "(b mod 16) * 4 + c div 64 < 64" using m(2) byte_parts(3) [OF lt(3)] by linarith
  ultimately show ?case using ih m(3) by simp
next
  case (2 a b)
  then have lt: "a < 256" "b < 256" by simp_all
  have m: "a mod 4 < 4" "b mod 16 < 16" by simp_all
  have "a div 4 < 64" using byte_parts [OF lt(1)] by simp
  moreover have "(a mod 4) * 16 + b div 16 < 64" using m(1) byte_parts(2) [OF lt(2)] by linarith
  moreover have "(b mod 16) * 4 < 64" using m(2) by linarith
  ultimately show ?case by simp
next
  case (3 a)
  then have lt: "a < 256" by simp
  have m: "a mod 4 < 4" by simp
  have "a div 4 < 64" using byte_parts [OF lt] by simp
  moreover have "(a mod 4) * 16 < 64" using m by linarith
  ultimately show ?case by simp
next
  case 4
  show ?case by simp
qed

lemma decode_groups_sextets:
  "\<forall>x\<in>set xs. x < 256 \<Longrightarrow> decode_groups (sextets xs) = Some xs"
proof (induction xs rule: sextets.induct)
  case (1 a b c rest)
  then have lt: "a < 256" "b < 256" "c < 256" and rest: "decode_groups (sextets rest) = Some rest"
    by simp_all
  show ?case
    using byte_parts(2) [OF lt(2)] byte_parts(3) [OF lt(3)] by (simp add: rest)
next
  case (2 a b)
  then have lt: "a < 256" "b < 256" by simp_all
  show ?case using byte_parts(2) [OF lt(2)] by simp
next
  case (3 a)
  show ?case by simp
next
  case 4
  show ?case by simp
qed

lemma unat_byte_less: "\<forall>x\<in>set (map unat (data :: buffer)). x < 256"
proof
  fix x assume "x \<in> set (map unat data)"
  then obtain b :: byte where "x = unat b" by auto
  then show "x < 256" using unsigned_less [of b, where 'a = nat] by simp
qed

lemma decodeURL_encodeURL: "decodeURL (Some (encodeURL data)) = Inr data"
proof -
  have "decode_chars (encodeURL data) = Some (sextets (map unat data))"
    unfolding encodeURL_def encode_groups_sextets
    by (rule decode_chars_map) (rule sextets_less [OF unat_byte_less])
  moreover have "decode_groups (sextets (map unat data)) = Some (map unat data)"
    by (rule decode_groups_sextets [OF unat_byte_less])
  moreover have "map of_nat (map unat data) = data"
    by (induction data) simp_all
  ultimately show ?thesis by (simp add: decodeURL_def)
qed

lemma decode_chars_reject:
  "dec_char c = None \<Longrightarrow> decode_chars (s @ c # t) = None"
  by (induction s) (simp_all split: option.splits)

lemma dec_char_pad: "dec_char CHR ''='' = None"
  by (simp add: dec_char_def url_table_def)

subsection \<open>The padded form of an encoding\<close>

lemma length_encode_groups:
  "length (encode_groups xs) mod 4 = (case length xs mod 3 of 0 \<Rightarrow> 0 | Suc 0 \<Rightarrow> 2 | _ \<Rightarrow> 3)"
proof (induction xs rule: encode_groups.induct)
  case (1 a b c rest)
  have "length (a # b # c # rest) mod 3 = length rest mod 3" by simp
  moreover have "length (encode_groups (a # b # c # rest)) mod 4
      = length (encode_groups rest) mod 4" by simp
  ultimately show ?case using 1 by (simp only:)
next
  case (2 a b)
  show ?case by simp
next
  case (3 a)
  show ?case by simp
next
  case 4
  show ?case by simp
qed

lemma length_encodeURL_mod:
  "length (encodeURL data) mod 4 = (case length data mod 3 of 0 \<Rightarrow> 0 | Suc 0 \<Rightarrow> 2 | _ \<Rightarrow> 3)"
  using length_encode_groups [of "map unat data"] by (simp add: encodeURL_def)

lemma pad64_encodeURL_0:
  assumes "length data mod 3 = 0"
  shows "pad64 (encodeURL data) = encodeURL data"
proof -
  have "length (encodeURL data) mod 4 = 0" by (simp add: length_encodeURL_mod assms)
  then show ?thesis by (simp add: pad64_def)
qed

lemma pad64_encodeURL_1:
  assumes "length data mod 3 = 1"
  shows "pad64 (encodeURL data) = encodeURL data @ ''==''"
proof -
  have "length (encodeURL data) mod 4 = 2" by (simp add: length_encodeURL_mod assms)
  then have "(4 - length (encodeURL data) mod 4) mod 4 = Suc (Suc 0)" by simp
  then show ?thesis by (simp only: pad64_def replicate.simps)
qed

lemma pad64_encodeURL_2:
  assumes "length data mod 3 = 2"
  shows "pad64 (encodeURL data) = encodeURL data @ ''=''"
proof -
  have "length data mod 3 = Suc (Suc 0)" using assms by simp
  then have "length (encodeURL data) mod 4 = 3" by (simp add: length_encodeURL_mod)
  then have "(4 - length (encodeURL data) mod 4) mod 4 = Suc 0" by simp
  then show ?thesis by (simp only: pad64_def replicate.simps)
qed

lemma encodeURL_fo: "encodeURL [102, 111] = ''Zm8''"
  by (simp add: encodeURL_def enc_char_def url_table_def)

section \<open>Parameter generation: the searches\<close>

subsection \<open>Candidates\<close>

lemma length_randomFill: "length (randomFill rnd pos n) = n"
  by (simp add: randomFill_def)

lemma length_force_bits: "length (force_bits buf) = length buf"
  by (simp add: force_bits_def Let_def)

lemma unat_or_128: "128 \<le> unat ((b::byte) OR 0x80)"
proof -
  have "(0x80::byte) \<le> 0x80 OR b" by (rule le_word_or2)
  then have "unat (0x80::byte) \<le> unat (0x80 OR b)" by (simp only: word_le_nat_alt)
  then show ?thesis by (simp add: or.commute)
qed

lemma force_bits_top:
  assumes "buf \<noteq> []"
  shows "2 ^ (8 * length buf - 1) \<le> BN (force_bits buf)"
proof -
  define b1 where "b1 = buf[length buf - 1 := (buf ! (length buf - 1)) OR 1]"
  have len: "length b1 = length buf" by (simp add: b1_def)
  with assms obtain h t where ht: "b1 = h # t" by (cases b1) auto
  have "force_bits buf = b1[0 := (b1 ! 0) OR 0x80]"
    unfolding force_bits_def b1_def Let_def by (simp only: assms if_False)
  then have fb: "force_bits buf = (h OR 0x80) # t" by (simp add: ht)
  have lt: "length buf = Suc (length t)" using len ht by simp
  have "(2::nat) ^ (8 * length buf - 1) = 128 * 256 ^ length t"
  proof -
    have "8 * length buf - 1 = 7 + 8 * length t" using lt by simp
    then have "(2::nat) ^ (8 * length buf - 1) = 2 ^ 7 * (2 ^ 8) ^ length t"
      by (simp only: power_add power_mult)
    then show ?thesis by simp
  qed
  also have "\<dots> \<le> unat (h OR 0x80) * 256 ^ length t"
    using unat_or_128 [of h] by (simp only: mult_le_mono1)
  also have "\<dots> \<le> BN (force_bits buf)" by (simp add: fb BN_Cons)
  finally show ?thesis .
qed

lemma force_bits_less: "BN (force_bits buf) < 2 ^ (8 * length buf)"
proof -
  have "BN (force_bits buf) < 256 ^ length (force_bits buf)" by (rule BN_less)
  also have "\<dots> = (2 ^ 8) ^ length buf" by (simp add: length_force_bits)
  also have "\<dots> = 2 ^ (8 * length buf)" by (simp only: power_mult)
  finally show ?thesis .
qed

lemma candidate_bits:
  assumes "0 < n"
  shows "bitLength (BN (force_bits (randomFill rnd pos n))) = 8 * n"
proof (rule bitLength_eq)
  show "0 < 8 * n" using assms by simp
  have ne: "randomFill rnd pos n \<noteq> []" using assms length_randomFill [of rnd pos n] by auto
  show "2 ^ (8 * n - 1) \<le> BN (force_bits (randomFill rnd pos n))"
    using force_bits_top [OF ne] by (simp add: length_randomFill)
  show "BN (force_bits (randomFill rnd pos n)) < 2 ^ (8 * n)"
    using force_bits_less [of "randomFill rnd pos n"] by (simp add: length_randomFill)
qed

lemma search_p_result:
  assumes "search_p pp rnd L qn i pos = (Some pn, pos')"
  shows "pp pn 64 \<and> L \<le> bitLength pn
           \<and> (\<exists>pn0. pn0 < 2 ^ (8 * (L div 8)) \<and> pn = nat (int pn0 - (int pn0 mod int qn - 1)))"
  using assms
proof (induction pp rnd L qn i pos rule: search_p.induct)
  case (1 pp rnd L qn i pos)
  let ?cand = "BN (force_bits (randomFill rnd pos (drop_bit 3 L)))"
  let ?pn = "nat (int ?cand - (int ?cand mod int qn - 1))"
  have lt: "?cand < 2 ^ (8 * (L div 8))"
    using force_bits_less [of "randomFill rnd pos (drop_bit 3 L)"]
    by (simp add: length_randomFill drop_bit3_eq_div8)
  from "1.prems" have il: "i < 4 * L"
    by (subst (asm) search_p.simps) (simp split: if_splits)
  show ?case
  proof (cases "bitLength ?pn < L")
    case True
    with "1.prems" il have "search_p pp rnd L qn (i + 1) (pos + drop_bit 3 L) = (Some pn, pos')"
      by (subst (asm) search_p.simps) (simp add: Let_def)
    with "1.IH"(1) [OF il refl refl refl refl refl True] show ?thesis .
  next
    case False
    note nb = this
    show ?thesis
    proof (cases "pp ?pn 64")
      case False
      with "1.prems" il nb have "search_p pp rnd L qn (i + 1) (pos + drop_bit 3 L) = (Some pn, pos')"
        by (subst (asm) search_p.simps) (simp add: Let_def)
      with "1.IH"(2) [OF il refl refl refl refl refl nb] False show ?thesis by simp
    next
      case True
      with "1.prems" il nb have "pn = ?pn"
        by (subst (asm) search_p.simps) (simp add: Let_def)
      then have "\<exists>pn0. pn0 < 2 ^ (8 * (L div 8)) \<and> pn = nat (int pn0 - (int pn0 mod int qn - 1))"
        using lt by (intro exI [of _ ?cand]) simp
      moreover have "pp pn 64" using True \<open>pn = ?pn\<close> by simp
      moreover have "L \<le> bitLength pn" using nb \<open>pn = ?pn\<close> by simp
      ultimately show ?thesis by blast
    qed
  qed
qed

subsection \<open>What the searches return\<close>

lemma search_pq_result:
  assumes "search_pq pp rnd L N pos = Some res"
  shows "\<exists>pos1 pos2. res = (fst res, fst (snd res), pos2)
           \<and> pp (fst (snd res)) 64
           \<and> fst (snd res) = BN (force_bits (randomFill rnd pos1 (drop_bit 3 N)))
           \<and> search_p pp rnd L (fst (snd res)) 0 (pos1 + drop_bit 3 N) = (Some (fst res), pos2)"
  by (rule search_pq.raw_induct
        [where P = "\<lambda>pp rnd L N pos res. \<exists>pos1 pos2. res = (fst res, fst (snd res), pos2)
           \<and> pp (fst (snd res)) 64
           \<and> fst (snd res) = BN (force_bits (randomFill rnd pos1 (drop_bit 3 N)))
           \<and> search_p pp rnd L (fst (snd res)) 0 (pos1 + drop_bit 3 N) = (Some (fst res), pos2)",
         OF _ assms])
     (auto simp: Let_def split: if_splits prod.splits option.splits)

lemma find_g_result:
  assumes "find_g h e pn = Some (Inr gn)"
  shows "\<exists>h'. h \<le> h' \<and> modPow h' e pn = Inr gn \<and> gn \<noteq> 1
           \<and> (\<forall>j. h \<le> j \<and> j < h' \<longrightarrow> modPow j e pn = Inr 1)"
proof -
  have "\<forall>gn. res = Inr gn \<longrightarrow> (\<exists>h'. h \<le> h' \<and> modPow h' e pn = Inr gn \<and> gn \<noteq> 1
           \<and> (\<forall>j. h \<le> j \<and> j < h' \<longrightarrow> modPow j e pn = Inr 1))"
    if "find_g h e pn = Some res" for res
  proof (rule find_g.raw_induct
        [where P = "\<lambda>h e pn res. \<forall>gn. res = Inr gn \<longrightarrow>
           (\<exists>h'. h \<le> h' \<and> modPow h' e pn = Inr gn \<and> gn \<noteq> 1
             \<and> (\<forall>j. h \<le> j \<and> j < h' \<longrightarrow> modPow j e pn = Inr 1))", OF _ that])
    fix f h e pn res
    assume IH: "\<And>h e pn res. f h e pn = Some res \<Longrightarrow>
        \<forall>gn. res = Inr gn \<longrightarrow> (\<exists>h'. h \<le> h' \<and> modPow h' e pn = Inr gn \<and> gn \<noteq> 1
             \<and> (\<forall>j. h \<le> j \<and> j < h' \<longrightarrow> modPow j e pn = Inr 1))"
      and body: "(case modPow h e pn of
                    Inl err \<Rightarrow> Some (Inl err)
                  | Inr gn \<Rightarrow> if gn = 1 then f (h + 1) e pn else Some (Inr gn)) = Some res"
    show "\<forall>gn. res = Inr gn \<longrightarrow> (\<exists>h'. h \<le> h' \<and> modPow h' e pn = Inr gn \<and> gn \<noteq> 1
             \<and> (\<forall>j. h \<le> j \<and> j < h' \<longrightarrow> modPow j e pn = Inr 1))"
    proof (intro allI impI)
      fix gn assume res: "res = Inr gn"
      show "\<exists>h'. h \<le> h' \<and> modPow h' e pn = Inr gn \<and> gn \<noteq> 1
             \<and> (\<forall>j. h \<le> j \<and> j < h' \<longrightarrow> modPow j e pn = Inr 1)"
      proof (cases "modPow h e pn")
        case (Inl err)
        with body res show ?thesis by simp
      next
        case (Inr g0)
        show ?thesis
        proof (cases "g0 = 1")
          case True
          with body Inr have "f (h + 1) e pn = Some res" by simp
          from IH [OF this] res obtain h' where h': "h + 1 \<le> h'" "modPow h' e pn = Inr gn"
            "gn \<noteq> 1" "\<forall>j. h + 1 \<le> j \<and> j < h' \<longrightarrow> modPow j e pn = Inr 1"
            by blast
          have "modPow j e pn = Inr 1" if "h \<le> j" "j < h'" for j
          proof (cases "j = h")
            case True
            then show ?thesis using Inr \<open>g0 = 1\<close> by simp
          next
            case False
            with that have "h + 1 \<le> j \<and> j < h'" by simp
            with h'(4) show ?thesis by (simp only:)
          qed
          then have "h \<le> h' \<and> modPow h' e pn = Inr gn \<and> gn \<noteq> 1
                 \<and> (\<forall>j. h \<le> j \<and> j < h' \<longrightarrow> modPow j e pn = Inr 1)"
            using h'(1,2,3) by simp
          then show ?thesis by (rule exI)
        next
          case False
          with body Inr res have "g0 = gn" by simp
          with False Inr have "h \<le> h \<and> modPow h e pn = Inr gn \<and> gn \<noteq> 1
                 \<and> (\<forall>j. h \<le> j \<and> j < h \<longrightarrow> modPow j e pn = Inr 1)" by auto
          then show ?thesis by (rule exI)
        qed
      qed
    qed
  qed
  from this [OF assms] show ?thesis by simp
qed

lemma is_prime_not_power2:
  assumes "is_prime p" "1 < L"
  shows "p \<noteq> 2 ^ L"
proof
  assume "p = 2 ^ L"
  have "\<forall>d. d dvd p \<longrightarrow> d = 1 \<or> d = p" using assms(1) by (simp add: is_prime_def)
  then have "2 dvd p \<longrightarrow> 2 = (1::nat) \<or> 2 = p" by (rule spec)
  moreover have "2 dvd p" using assms(2) \<open>p = 2 ^ L\<close> by simp
  ultimately have "2 = p" by simp
  moreover have "(2::nat) ^ 2 \<le> 2 ^ L" using assms(2) by (intro power_increasing) simp_all
  ultimately show False using \<open>p = 2 ^ L\<close> by simp
qed

lemma candidate_shape:
  assumes q: "0 < qn" and pn: "pn = nat (int c - (int c mod int qn - 1))"
  shows "qn dvd pn - 1 \<and> pn \<le> c + 1"
proof -
  have "int c mod int qn = int (c mod qn)" by (simp add: zmod_int)
  then have "int c - (int c mod int qn - 1) = int (c - c mod qn + 1)" by simp
  then have eq: "pn = c - c mod qn + 1" using pn by (simp only: nat_int)
  then have "pn - 1 = qn * (c div qn)" by (simp add: minus_mod_eq_mult_div)
  then have "qn dvd pn - 1" by simp
  moreover have "pn \<le> c + 1" using eq by simp
  ultimately show ?thesis by simp
qed

lemma generator_order:
  assumes p: "is_prime pn" and q: "is_prime qn" and dv: "qn dvd pn - 1"
    and g: "find_g 2 ((pn - 1) div qn) pn = Some (Inr gn)"
  shows "gn \<noteq> 1 \<and> gn ^ qn mod pn = 1 \<and> gn < pn"
proof -
  let ?e = "(pn - 1) div qn"
  have p1: "1 < pn" using p by (rule is_prime_gt1)
  have q1: "1 < qn" using q by (rule is_prime_gt1)
  have eq: "?e * qn = pn - 1" using dv by simp
  have e0: "0 < ?e" using eq p1 by (cases "?e = 0") auto
  have "?e * 2 \<le> ?e * qn" using q1 by simp
  moreover have "?e < ?e * 2" using e0 by simp
  ultimately have "?e < ?e * qn" by (rule less_le_trans [rotated])
  then have e1: "?e < pn - 1" by (simp only: eq)
  from find_g_result [OF g] obtain h where h0: "2 \<le> h" "modPow h ?e pn = Inr gn" "gn \<noteq> 1"
    "\<forall>j. 2 \<le> j \<and> j < h \<longrightarrow> modPow j ?e pn = Inr 1" by (elim exE conjE)
  have h: "gn = h ^ ?e mod pn" "\<forall>j. 2 \<le> j \<and> j < h \<longrightarrow> j ^ ?e mod pn = 1"
    using h0(2,4) p1 by (simp_all add: modPow_Inr)
  from exists_non_root [OF p e0 e1] obtain k where k: "2 \<le> k" "k < pn" "k ^ ?e mod pn \<noteq> 1"
    by (elim exE conjE)
  have "\<not> k < h"
  proof
    assume "k < h"
    with k(1) h(2) have "k ^ ?e mod pn = 1" by simp
    with k(3) show False by simp
  qed
  then have hp: "h < pn" using k(2) by simp
  have "\<not> pn dvd h" using p _ hp by (rule is_prime_not_dvd_less) (use h0(1) in simp)
  with p have fl: "h ^ (pn - 1) mod pn = 1" by (rule fermat_little)
  have "gn ^ qn mod pn = (h ^ ?e mod pn) ^ qn mod pn" by (simp only: h(1))
  also have "\<dots> = (h ^ ?e) ^ qn mod pn" by (simp only: power_mod)
  also have "\<dots> = h ^ (pn - 1) mod pn" by (simp only: power_mult [symmetric] eq)
  finally have "gn ^ qn mod pn = 1" using fl by simp
  moreover have "gn < pn" using p1 by (simp add: h(1))
  ultimately show ?thesis using h0(3) by simp
qed

lemma mult8_div8: "n mod 8 = 0 \<Longrightarrow> 8 * (n div 8) = (n::nat)"
  by (simp add: mod_0_imp_dvd)

lemma generate_body_result:
  assumes sizes: "0 < N" "N mod 8 = 0" "L mod 8 = 0"
    and gen: "generate_body pp rnd pos L N = Some (Inr (params, pos'))"
  shows "\<exists>pn qn gn. key_p params = toBuffer pn \<and> key_q params = toBuffer qn
           \<and> key_g params = toBuffer gn \<and> pp pn 64 \<and> pp qn 64 \<and> bitLength qn = N
           \<and> qn dvd pn - 1 \<and> L \<le> bitLength pn \<and> pn \<le> 2 ^ L
           \<and> find_g 2 ((pn - 1) div qn) pn = Some (Inr gn)"
proof -
  from gen obtain pn qn pos2 gn where
    pq: "search_pq pp rnd L N pos = Some (pn, qn, pos2)"
    and g: "find_g 2 ((pn - 1) div qn) pn = Some (Inr gn)"
    and par: "params = (new_DSAParams None None None)
                \<lparr> key_p := toBuffer pn, key_q := toBuffer qn, key_g := toBuffer gn \<rparr>"
    by (auto simp: generate_body_def Let_def split: option.splits prod.splits sum.splits)
  from search_pq_result [OF pq] obtain pos1 pos3 where
    ppq: "pp qn 64"
    and qn: "qn = BN (force_bits (randomFill rnd pos1 (drop_bit 3 N)))"
    and sp: "search_p pp rnd L qn 0 (pos1 + drop_bit 3 N) = (Some pn, pos3)"
    by auto
  have n8: "0 < N div 8" using sizes(1,2) by (cases "N div 8 = 0") auto
  have "bitLength qn = 8 * (N div 8)"
    unfolding qn drop_bit3_eq_div8 using n8 by (rule candidate_bits)
  also have "\<dots> = N" using sizes(2) by (rule mult8_div8)
  finally have bq: "bitLength qn = N" .
  have q0: "0 < qn"
  proof (rule ccontr)
    assume "\<not> 0 < qn"
    then have "bitLength qn = 0" by (simp add: bitLength.simps)
    with bq sizes(1) show False by simp
  qed
  from search_p_result [OF sp] obtain c where
    ppp: "pp pn 64" and bl: "L \<le> bitLength pn"
    and c: "c < 2 ^ (8 * (L div 8))" and pn: "pn = nat (int c - (int c mod int qn - 1))"
    by (elim exE conjE)
  have l8: "8 * (L div 8) = L" using sizes(3) by (rule mult8_div8)
  from candidate_shape [OF q0 pn] have dv: "qn dvd pn - 1" and le: "pn \<le> c + 1" by simp_all
  have "pn \<le> 2 ^ L" using le c by (simp add: l8)
  with par ppq ppp bq dv bl g show ?thesis by auto
qed

lemma generate_Inr:
  assumes "generate pp rnd pos L N = Some (Inr res)"
  shows "generate_body pp rnd pos (nat L) (nat N) = Some (Inr res)
           \<and> (L, N) \<in> {(1024, 160), (2048, 224), (2048, 256), (3072, 256)}"
  using assms by (auto simp: generate_def split: if_splits option.splits)

subsection \<open>A run at small sizes\<close>

lemma is_prime_sqrt:
  assumes p1: "1 < p" and s: "p < s * s" and nd: "\<forall>d\<in>{2..<s}. \<not> d dvd p"
  shows "is_prime p"
  unfolding is_prime_def
proof (intro conjI allI impI)
  show "1 < p" by (rule p1)
next
  fix d assume dv: "d dvd p"
  then obtain e where e: "p = d * e" by (rule dvdE)
  show "d = 1 \<or> d = p"
  proof (rule ccontr)
    assume neg: "\<not> (d = 1 \<or> d = p)"
    have d0: "d \<noteq> 0"
    proof
      assume "d = 0"
      with e p1 show False by simp
    qed
    have e0: "e \<noteq> 0"
    proof
      assume "e = 0"
      with e p1 show False by simp
    qed
    have e1: "e \<noteq> 1" using neg e by auto
    have d2: "2 \<le> d" using neg d0 by simp
    have e2: "2 \<le> e" using e0 e1 by simp
    have edv: "e dvd p" using e by simp
    have "\<not> d < s" using nd d2 dv by auto
    moreover have "\<not> e < s" using nd e2 edv by auto
    ultimately have "s * s \<le> d * e" by (simp add: mult_le_mono)
    with s e show False by simp
  qed
qed

lemma is_prime_33013: "is_prime 33013"
proof (rule is_prime_sqrt [where s = 182])
  show "\<forall>d\<in>{2..<182}. \<not> d dvd (33013::nat)" by (simp add: atLeastLessThan_nat_numeral)
qed simp_all

lemma probablyPrime0_sound: "\<forall>n r. probablyPrime0 n r \<longrightarrow> is_prime n"
  by (auto simp: probablyPrime0_def is_prime_131 is_prime_33013)

lemma q_cand0: "BN (force_bits (randomFill rnd0 0 (Suc 0))) = 131"
  by (simp add: randomFill_def rnd0_def force_bits_def BN_def)

lemma upt_1_3: "[Suc 0..<3] = [1, 2]"
  by (simp add: eval_nat_numeral)

lemma p_cand0: "BN (force_bits (randomFill rnd0 (Suc 0) 2)) = 33013"
  by (simp add: randomFill_def upt_1_3 rnd0_def force_bits_def BN_def)

lemma bitLength_33013: "bitLength 33013 = 16"
  by (rule bitLength_eq) simp_all

lemma search_p0: "search_p probablyPrime0 rnd0 16 131 0 (Suc 0) = (Some 33013, 3)"
  by (subst search_p.simps)
     (simp add: Let_def p_cand0 bitLength_33013 probablyPrime0_def drop_bit3_eq_div8)

lemma search_pq0: "search_pq probablyPrime0 rnd0 16 8 0 = Some (33013, 131, 3)"
  by (subst search_pq.simps)
     (simp add: Let_def q_cand0 probablyPrime0_def search_p0 drop_bit3_eq_div8)

lemma find_g0: "find_g 2 252 33013 = Some (Inr 26935)"
  by (subst find_g.simps) (simp add: modPow_Inr)

lemma toBuffer_p0: "toBuffer 33013 = [128, 245]" and toBuffer_g0: "toBuffer 26935 = [105, 55]"
  and toBuffer_131: "toBuffer 131 = [131]"
  by (simp_all add: toBuffer_def toArrayLike.simps)

lemma generate_body0: "generate_body probablyPrime0 rnd0 0 16 8 = Some (Inr (params0, 3))"
  by (simp add: generate_body_def search_pq0 find_g0 toBuffer_p0 toBuffer_g0 toBuffer_131
      new_DSAParams_def trimLeft_def params0_def)

section \<open>Properties of the JavaScript entry points\<close>

subsection \<open>Verification refuses out-of-range signatures\<close>

text \<open>
  C5. For every DSA key and signature, \<open>verify\<close> returns \<open>false\<close> whenever \<open>r = 0\<close>,
  \<open>s = 0\<close>, \<open>r \<ge> q\<close> or \<open>s \<ge> q\<close>: verification proceeds only when \<open>r\<close> and \<open>s\<close>
  lie strictly between \<open>0\<close> and \<open>q\<close>.
\<close>

theorem verify_rejects_out_of_range:
  assumes "instanceof_DSAKey key = Some k"
    and "BN (sig_r sg) = 0 \<or> BN (sig_s sg) = 0
         \<or> BN (sig_r sg) \<ge> BN (key_q k) \<or> BN (sig_s sg) \<ge> BN (key_q k)"
  shows "verify (JBuffer m) (JDSASignature sg) key = Inr False"
  using assms by (auto simp: verify_def Let_def)

theorem verify_rejects_out_of_range_witness:
  "instanceof_DSAKey (JDSAPublicKey \<lparr> key_p = [7], key_q = [3], key_g = [2], key_y = [4] \<rparr>)
     = Some \<lparr> key_p = [7], key_q = [3], key_g = [2], key_y = [4] \<rparr>
   \<and> BN (sig_r \<lparr> sig_size = 1, sig_r = [3], sig_s = [1] \<rparr>)
       \<ge> BN (key_q \<lparr> key_p = [7], key_q = [3], key_g = [2], key_y = [4] \<rparr>)
   \<and> verify (JBuffer [5]) (JDSASignature \<lparr> sig_size = 1, sig_r = [3], sig_s = [1] \<rparr>)
        (JDSAPublicKey \<lparr> key_p = [7], key_q = [3], key_g = [2], key_y = [4] \<rparr>) = Inr False"
  using verify_rejects_out_of_range [of "JDSAPublicKey \<lparr> key_p = [7], key_q = [3], key_g = [2], key_y = [4] \<rparr>"
      "\<lparr> key_p = [7], key_q = [3], key_g = [2], key_y = [4] \<rparr>"
      "\<lparr> sig_size = 1, sig_r = [3], sig_s = [1] \<rparr>" "[5]"]
  by (simp add: BN_def)

subsection \<open>The sizes \<open>paramsGenerate\<close> accepts\<close>

lemma is_uint32_iff: "is_uint32 x \<longleftrightarrow> 0 \<le> x \<and> x < 2 ^ 32"
  unfolding is_uint32_def by (simp add: take_bit_int_eq_self_iff)

text \<open>
  C2, as amended. \<open>paramsGenerate(bits)\<close> fails for every integer \<open>bits\<close> outside
  [1024, 3072] (with the range error, or with an assertion error when \<open>bits\<close> is not
  an unsigned 32-bit integer). Inside the range it calls \<open>generate\<close> with \<open>L = bits\<close>
  and \<open>N = 160\<close> when \<open>bits < 2048\<close>, \<open>N = 256\<close> otherwise; \<open>generate\<close> runs the
  generation for \<open>bits\<close> 1024, 2048 and 3072 only, and fails with
  \<open>Invalid parameter sizes.\<close> for every other \<open>bits\<close> of the range.
\<close>

theorem paramsGenerate_sizes:
  "paramsGenerate pp rnd pos (Some bits) =
     (if \<not> is_uint32 bits then Some (Inl AssertionError)
      else if bits < 1024 \<or> 3072 < bits
      then Some (Inl (RangeError ''`bits` must range between 1024 and 3072.''))
      else if bits = 1024 \<or> bits = 2048 \<or> bits = 3072
      then generate_body pp rnd pos (nat bits) (if bits < 2048 then 160 else 256)
      else Some (Inl (Error ''Invalid parameter sizes.'')))"
  by (auto simp: paramsGenerate_def generate_def is_uint32_iff Let_def)

text \<open>
  C2 as stated fails: \<open>bits = 1025\<close> lies in [1024, 3072], and \<open>paramsGenerate\<close> fails
  there with the parameter-size error of \<open>generate\<close>.
\<close>

theorem paramsGenerate_1025_counterexample:
  "paramsGenerate (\<lambda>n r. False) (\<lambda>i. 0) 0 (Some 1025)
     = Some (Inl (Error ''Invalid parameter sizes.''))"
  by (simp add: paramsGenerate_def generate_def is_uint32_iff)

subsection \<open>What the verify family returns\<close>




subsection \<open>Canonical fields of key objects\<close>

lemma trimLeft_canonical: "canonical (trimLeft data)"
proof (cases data)
  case None
  then show ?thesis by (simp add: trimLeft_def canonical_def)
next
  case (Some buf)
  have "canonical (dropWhile (\<lambda>b. b = 0) buf)"
    by (induction buf) (auto simp: canonical_def)
  with Some show ?thesis by (simp add: trimLeft_def)
qed

lemma constructors_canonical:
  "canonical (key_p (new_DSAPrivateKey p q g y x))"
  "canonical (key_q (new_DSAPrivateKey p q g y x))"
  "canonical (key_g (new_DSAPrivateKey p q g y x))"
  "canonical (key_y (new_DSAPrivateKey p q g y x))"
  "canonical (key_x (new_DSAPrivateKey p q g y x))"
  "canonical (key_p (new_DSAParams p q g))"
  "canonical (key_q (new_DSAParams p q g))"
  "canonical (key_g (new_DSAParams p q g))"
  by (simp_all add: new_DSAPrivateKey_def new_DSAParams_def trimLeft_canonical)

lemma setters_canonical:
  "canonical (key_p (setP params p))"
  "canonical (key_q (setQ params q))"
  "canonical (key_g (setG params g))"
  "canonical (key_y (setY pub y))"
  "canonical (key_x (setX priv x))"
  by (simp_all add: setP_def setQ_def setG_def setY_def setX_def trimLeft_canonical)

text \<open>
  C9 at the failing input. \<open>fromJSON\<close> stores what \<open>base64.decodeURL\<close> returns: the
  JSON field \<open>p = "AAE"\<close> decodes to the bytes \<open>00 01\<close>, and the key object holds a
  field with a leading zero byte, where the constructor (and \<open>setP\<close>) given the same
  bytes stores \<open>01\<close>.
\<close>

theorem fromJSON_keeps_leading_zero:
  "DSAParams_fromJSON (new_DSAParams None None None)
     (Some \<lparr> json_kty = Some ''DSA'', json_p = Some ''AAE'', json_q = Some ''AQ'',
             json_g = Some ''Ag'', json_y = None, json_x = None \<rparr>)
     = Inr \<lparr> key_p = [0, 1], key_q = [1], key_g = [2] \<rparr>
   \<and> \<not> canonical (key_p \<lparr> key_p = [0, 1], key_q = [1], key_g = [2] \<rparr>)
   \<and> new_DSAParams (Some [0, 1]) (Some [1]) (Some [2]) = \<lparr> key_p = [1], key_q = [1], key_g = [2] \<rparr>"
  by (simp add: DSAParams_fromJSON_def new_DSAParams_def decodeURL_def dec_char_def url_table_def
      trimLeft_def canonical_def)

section \<open>The URL-safe base64 codec\<close>

text \<open>
  C8, as amended. For every buffer \<open>b\<close>, \<open>decodeURL\<close> succeeds on \<open>encodeURL(b)\<close> and
  returns \<open>b\<close>. The same string with \<open>=\<close> padding appended is rejected whenever the
  padding is not empty, that is whenever the length of \<open>b\<close> is not a multiple of 3; when
  it is, the padded and the unpadded encoding are the same string.
\<close>

theorem base64url_roundtrip_unpadded:
  "decodeURL (Some (encodeURL data)) = Inr data
   \<and> (length data mod 3 \<noteq> 0 \<longrightarrow> decodeURL (Some (pad64 (encodeURL data))) = Inl DecodeError)
   \<and> (length data mod 3 = 0 \<longrightarrow> pad64 (encodeURL data) = encodeURL data)"
proof (intro conjI impI)
  show "decodeURL (Some (encodeURL data)) = Inr data" by (rule decodeURL_encodeURL)
next
  assume "length data mod 3 \<noteq> 0"
  then have "length data mod 3 = 1 \<or> length data mod 3 = 2" by linarith
  then have "\<exists>rest. pad64 (encodeURL data) = encodeURL data @ CHR ''='' # rest"
  proof
    assume "length data mod 3 = 1"
    then show ?thesis by (simp only: pad64_encodeURL_1) blast
  next
    assume "length data mod 3 = 2"
    then show ?thesis by (simp only: pad64_encodeURL_2) blast
  qed
  then obtain rest where p: "pad64 (encodeURL data) = encodeURL data @ CHR ''='' # rest" ..
  have "decode_chars (encodeURL data @ CHR ''='' # rest) = None"
    by (rule decode_chars_reject [OF dec_char_pad])
  then show "decodeURL (Some (pad64 (encodeURL data))) = Inl DecodeError"
    by (simp only: p decodeURL_def option.case)
next
  assume "length data mod 3 = 0"
  then show "pad64 (encodeURL data) = encodeURL data" by (rule pad64_encodeURL_0)
qed

theorem base64url_roundtrip_unpadded_witness:
  "length [102 :: byte, 111] mod 3 \<noteq> 0
   \<and> decodeURL (Some (encodeURL [102, 111])) = Inr [102, 111]
   \<and> pad64 (encodeURL [102, 111]) = ''Zm8=''
   \<and> decodeURL (Some ''Zm8='') = Inl DecodeError"
proof -
  have n: "length [102 :: byte, 111] mod 3 \<noteq> 0" by simp
  have p: "pad64 (encodeURL [102, 111]) = ''Zm8=''"
    using pad64_encodeURL_2 [of "[102, 111]"] by (simp add: encodeURL_fo)
  from base64url_roundtrip_unpadded [of "[102, 111]"] n
  have "decodeURL (Some (encodeURL [102, 111])) = Inr [102, 111]"
    and "decodeURL (Some (pad64 (encodeURL [102, 111]))) = Inl DecodeError"
    by blast+
  with n p show ?thesis by (simp only:) simp
qed

text \<open>
  C8 as stated fails: the byte \<open>66\<close> (hexadecimal) encodes to \<open>Zg\<close>, and the padded form
  \<open>Zg==\<close>, which the repository's tests list under \<open>urlInvalid\<close>, is rejected.
\<close>

theorem base64url_padding_counterexample:
  "encodeURL [102] = ''Zg'' \<and> decodeURL (Some (''Zg'' @ ''=='')) = Inl DecodeError"
  by (simp add: encodeURL_def enc_char_def url_table_def decodeURL_def dec_char_def)

section \<open>Signing and verification\<close>

subsection \<open>Signatures verify\<close>

text \<open>
  C1. For every valid DSA private key \<open>K\<close> and every message buffer \<open>z\<close>,
  \<open>verify(z, sign(z, K), toPublic(K))\<close> returns \<open>true\<close>. Of the invariants of a valid key
  the proof needs that \<open>q\<close> is prime, that \<open>g\<close> has order dividing \<open>q\<close> modulo \<open>p\<close>, and
  that \<open>y = g^x mod p\<close>. The first part says that every signature \<open>sign\<close> returns is
  accepted; the second that \<open>sign\<close> does return a signature, at the first of its ten
  attempts whose \<open>k\<close> gives \<open>r \<noteq> 0\<close> and \<open>s \<noteq> 0\<close>, when the bit length of \<open>q\<close> is a
  multiple of 8.
\<close>

theorem sign_verify_roundtrip:
  assumes q: "is_prime (BN (key_q K))"
    and gq: "BN (key_g K) ^ BN (key_q K) mod BN (key_p K) = 1"
    and y: "BN (key_y K) = BN (key_g K) ^ BN (key_x K) mod BN (key_p K)"
  shows "(\<forall>sg pos'. sign rnd pos (JBuffer z) (JDSAPrivateKey K) = Some (Inr (sg, pos')) \<longrightarrow>
            verify (JBuffer z) (JDSASignature sg) (JDSAPublicKey (toPublic K)) = Inr True)
       \<and> (0 < BN (key_p K) \<and> 0 < BN (key_x K) \<and> bitLength (BN (key_q K)) mod 8 = 0 \<longrightarrow>
           (\<forall>i<10. \<forall>k p'.
              nth_k rnd (bitLength (BN (key_q K)) div 8) (BN (key_q K)) pos i = Some (k, p')
              \<and> \<not> attempt_fails (BN (key_p K)) (BN (key_q K)) (BN (key_g K)) (BN (key_x K)) (BN z) k
              \<and> (\<forall>j<i. \<exists>kj pj.
                     nth_k rnd (bitLength (BN (key_q K)) div 8) (BN (key_q K)) pos j = Some (kj, pj)
                     \<and> attempt_fails (BN (key_p K)) (BN (key_q K)) (BN (key_g K)) (BN (key_x K))
                         (BN z) kj)
              \<longrightarrow> (\<exists>sg. sign rnd pos (JBuffer z) (JDSAPrivateKey K) = Some (Inr (sg, p')))))"
proof (intro conjI allI impI)
  let ?p = "BN (key_p K)" and ?q = "BN (key_q K)" and ?g = "BN (key_g K)" and ?x = "BN (key_x K)"
  have q1: "1 < ?q" using q by (rule is_prime_gt1)
  {
    fix sg pos'
    assume sg: "sign rnd pos (JBuffer z) (JDSAPrivateKey K) = Some (Inr (sg, pos'))"
    note chk = sign_Inr_checks [OF sg]
    have p1: "1 < ?p" using sign_Inr_moduli [OF sg] by simp
    from sign_Inr_attempt [OF sg] obtain i k where
      nk: "nth_k rnd (bitLength ?q div 8) ?q pos i = Some (k, pos')"
      and ok: "\<not> attempt_fails ?p ?q ?g ?x (BN z) k"
      and sgeq: "sg = setS (setR (new_DSASignature (key_size K)) (toBuffer (attempt_r ?p ?q ?g k)))
                     (toBuffer (attempt_s ?p ?q ?g ?x (BN z) k))"
      by blast
    let ?r = "attempt_r ?p ?q ?g k" and ?s = "attempt_s ?p ?q ?g ?x (BN z) k"
    have k: "0 < k" "k < ?q" using nth_k_range [OF nk] by simp_all
    have rs: "?r \<noteq> 0" "?s \<noteq> 0" using attempt_values [OF ok] by simp_all
    have rlt: "?r < ?q" unfolding attempt_r_def using q1 by simp
    have slt: "?s < ?q" unfolding attempt_s_def using q1 by simp
    have cop: "coprime ?s ?q"
      using q _ slt by (rule is_prime_coprime_less) (use rs(2) in simp)
    from invm_inverse [OF cop q1] obtain w where
      w: "invm ?s ?q = Inr w" "(?s * w) mod ?q = 1" by blast
    have acc: "(((?g ^ ((BN z * w) mod ?q) mod ?p)
              * ((?g ^ ?x mod ?p) ^ ((?r * w) mod ?q) mod ?p)) mod ?p) mod ?q = ?r"
    proof (rule verify_accepts [OF q gq k _ _ rs(2) w(2)])
      show "?r = (?g ^ k mod ?p) mod ?q" by (simp add: attempt_r_def)
      show "?s = ((?x * ?r + BN z) mod ?q * (k ^ (?q - 2) mod ?q)) mod ?q"
        by (simp add: attempt_s_def)
    qed
    have sr: "BN (sig_r sg) = ?r" and ss: "BN (sig_s sg) = ?s"
      unfolding sgeq by (rule signature_values)+
    show "verify (JBuffer z) (JDSASignature sg) (JDSAPublicKey (toPublic K)) = Inr True"
      using chk rlt slt rs acc p1
      by (simp add: verify_def Let_def toPublic_fields sr ss y and7_eq_mod8 w(1) modPow_Inr)
  }
  {
    fix i k p'
    assume chk: "0 < ?p \<and> 0 < ?x \<and> bitLength ?q mod 8 = 0"
      and i: "i < 10"
      and h: "nth_k rnd (bitLength ?q div 8) ?q pos i = Some (k, p')
              \<and> \<not> attempt_fails ?p ?q ?g ?x (BN z) k
              \<and> (\<forall>j<i. \<exists>kj pj. nth_k rnd (bitLength ?q div 8) ?q pos j = Some (kj, pj)
                     \<and> attempt_fails ?p ?q ?g ?x (BN z) kj)"
    have g0: "0 < ?g"
    proof (rule ccontr)
      assume "\<not> 0 < ?g"
      then have "?g ^ ?q = 0" using q1 by (simp add: zero_power)
      with gq show False by simp
    qed
    have p1: "1 < ?p"
    proof (rule ccontr)
      assume "\<not> 1 < ?p"
      with chk have "?p = 1" by simp
      with gq show False by simp
    qed
    have un: "sign rnd pos (JBuffer z) (JDSAPrivateKey K) =
       (case sign_loop rnd (bitLength ?q div 8) ?p ?q ?g ?x z 10 0 0 pos of
          None \<Rightarrow> None
        | Some (Inl e) \<Rightarrow> Some (Inl e)
        | Some (Inr (attempts, r, s, pos')) \<Rightarrow>
            if attempts = 0 then Some (Inl (Error ''Could not sign.''))
            else Some (Inr (setS (setR (new_DSASignature (key_size K)) (toBuffer r))
                                (toBuffer s), pos')))"
      using chk q1 g0 by (intro sign_unfold) simp_all
    have "sign_loop rnd (bitLength ?q div 8) ?p ?q ?g ?x z 10 0 0 pos
          = Some (Inr (10 - i, attempt_r ?p ?q ?g k, attempt_s ?p ?q ?g ?x (BN z) k, p'))"
      using i h p1 q1 by (intro sign_loop_progress) simp_all
    then show "\<exists>sg. sign rnd pos (JBuffer z) (JDSAPrivateKey K) = Some (Inr (sg, p'))"
      unfolding un using i by simp
  }
qed

theorem sign_verify_roundtrip_witness:
  "is_prime (BN (key_q K0))
   \<and> BN (key_g K0) ^ BN (key_q K0) mod BN (key_p K0) = 1
   \<and> BN (key_y K0) = BN (key_g K0) ^ BN (key_x K0) mod BN (key_p K0)
   \<and> sign (\<lambda>i. 5) 0 (JBuffer [66]) (JDSAPrivateKey K0)
       = Some (Inr (\<lparr> sig_size = 1, sig_r = [104], sig_s = [54] \<rparr>, 1))
   \<and> verify (JBuffer [66]) (JDSASignature \<lparr> sig_size = 1, sig_r = [104], sig_s = [54] \<rparr>)
        (JDSAPublicKey (toPublic K0)) = Inr True"
  using sign_verify_roundtrip [OF K0_valid, of "\<lambda>i. 5" 0 "[66]"] sign_K0 K0_valid
  by blast

subsection \<open>The retry budget of \<open>sign\<close>\<close>

text \<open>
  C6. \<open>sign\<close> makes at most 10 attempts at the \<open>(k, r, s)\<close> sampling loop. On a key that
  passes its checks and whose \<open>p\<close> and \<open>q\<close> are odd, \<open>p\<close> greater than 1 (the moduli at
  which the Montgomery arithmetic computes \<open>g^k mod p\<close> and \<open>k^(q - 2) mod q\<close>): it fails
  with \<open>Could not sign.\<close> (the spec's \<open>SignatureFailed\<close>) exactly when each of the 10
  attempts yields \<open>r = 0\<close> or \<open>s = 0\<close>; a signature it returns comes from one of the
  attempts 0..9; every attempt's \<open>k\<close> lies in \<open>[1, q - 1]\<close>; the sampling is by
  rejection: \<open>k\<close> is the first candidate on the tape that lies in \<open>[1, q - 1]\<close>, the
  candidates being consecutive blocks of \<open>n\<close> random bytes; and it is uniform: every
  \<open>k\<close> in \<open>[1, q - 1]\<close> is the value of exactly one block of \<open>n\<close> bytes, so uniform
  bytes give every \<open>k\<close> the same chance.
\<close>

theorem sign_retry_budget:
  assumes defs: "pn = BN (key_p K)" "qn = BN (key_q K)" "gn = BN (key_g K)" "xn = BN (key_x K)"
      "n = bitLength qn div 8"
    and chk: "0 < pn" "0 < qn" "0 < gn" "0 < xn" "bitLength qn mod 8 = 0"
    and moduli: "odd pn" "1 < pn" "odd qn"
  shows "(sign rnd pos (JBuffer m) (JDSAPrivateKey K) = Some (Inl (Error ''Could not sign.''))
          \<longleftrightarrow> (\<forall>i<10. \<exists>k p'. nth_k rnd n qn pos i = Some (k, p')
                         \<and> attempt_fails pn qn gn xn (BN m) k))
       \<and> (\<forall>sg pos'. sign rnd pos (JBuffer m) (JDSAPrivateKey K) = Some (Inr (sg, pos')) \<longrightarrow>
            (\<exists>i<10. \<exists>k. nth_k rnd n qn pos i = Some (k, pos')
                  \<and> \<not> attempt_fails pn qn gn xn (BN m) k
                  \<and> BN (sig_r sg) = attempt_r pn qn gn k
                  \<and> BN (sig_s sg) = attempt_s pn qn gn xn (BN m) k))
       \<and> (\<forall>i k p'. nth_k rnd n qn pos i = Some (k, p') \<longrightarrow> 1 \<le> k \<and> k \<le> qn - 1)
       \<and> (\<forall>pos k pos'. sample_k rnd n qn pos = Some (k, pos') \<longleftrightarrow>
            (\<exists>j. k = draw rnd n pos j \<and> pos' = pos + (j + 1) * n \<and> 1 \<le> k \<and> k \<le> qn - 1
                \<and> (\<forall>i<j. \<not> (1 \<le> draw rnd n pos i \<and> draw rnd n pos i \<le> qn - 1))))
       \<and> (\<forall>k. 1 \<le> k \<and> k \<le> qn - 1 \<longrightarrow> (\<exists>!buf. length buf = n \<and> BN buf = k))"
proof (intro conjI)
  have q1: "1 < qn" using chk(2,5) by (rule bitLength_multiple_gt1)
  have un: "sign rnd pos (JBuffer m) (JDSAPrivateKey K) =
     (case sign_loop rnd n pn qn gn xn m 10 0 0 pos of
        None \<Rightarrow> None
      | Some (Inl e) \<Rightarrow> Some (Inl e)
      | Some (Inr (attempts, r, s, pos')) \<Rightarrow>
          if attempts = 0 then Some (Inl (Error ''Could not sign.''))
          else Some (Inr (setS (setR (new_DSASignature (key_size K)) (toBuffer r))
                              (toBuffer s), pos')))"
    unfolding defs using chk [unfolded defs] by (intro sign_unfold)
  have noerr: "sign_loop rnd n pn qn gn xn m a r0 s0 p0 \<noteq> Some (Inl e)" for a r0 s0 p0 e
  proof (induction a arbitrary: r0 s0 p0)
    case 0
    show ?case by simp
  next
    case (Suc a)
    show ?case
    proof (cases "sample_k rnd n qn p0")
      case None
      then show ?thesis by simp
    next
      case (Some res)
      obtain k pos1 where res: "res = (k, pos1)" by (cases res)
      note sk = Some [unfolded res]
      show ?thesis
      proof (cases "attempt_fails pn qn gn xn (BN m) k")
        case True
        from sign_loop_fail [OF sk True moduli(2) q1] obtain r' s' where
          "sign_loop rnd n pn qn gn xn m (Suc a) r0 s0 p0
             = sign_loop rnd n pn qn gn xn m a r' s' pos1" by blast
        with Suc.IH [of r' s' pos1] show ?thesis by simp
      next
        case False
        from sign_loop_ok [OF sk False moduli(2) q1] show ?thesis by simp
      qed
    qed
  qed
  show "sign rnd pos (JBuffer m) (JDSAPrivateKey K) = Some (Inl (Error ''Could not sign.''))
          \<longleftrightarrow> (\<forall>i<10. \<exists>k p'. nth_k rnd n qn pos i = Some (k, p')
                         \<and> attempt_fails pn qn gn xn (BN m) k)"
  proof -
    have "sign rnd pos (JBuffer m) (JDSAPrivateKey K) = Some (Inl (Error ''Could not sign.''))
          \<longleftrightarrow> (\<exists>r s p'. sign_loop rnd n pn qn gn xn m 10 0 0 pos = Some (Inr (0, r, s, p')))"
      unfolding un using noerr [of 10 0 0 pos]
      by (auto split: option.splits sum.splits prod.splits if_splits)
    then show ?thesis by (simp only: sign_loop_exhaust_iff [OF moduli(2) q1])
  qed
  show "\<forall>sg pos'. sign rnd pos (JBuffer m) (JDSAPrivateKey K) = Some (Inr (sg, pos')) \<longrightarrow>
            (\<exists>i<10. \<exists>k. nth_k rnd n qn pos i = Some (k, pos')
                  \<and> \<not> attempt_fails pn qn gn xn (BN m) k
                  \<and> BN (sig_r sg) = attempt_r pn qn gn k
                  \<and> BN (sig_s sg) = attempt_s pn qn gn xn (BN m) k)"
  proof (intro allI impI)
    fix sg pos'
    assume sg: "sign rnd pos (JBuffer m) (JDSAPrivateKey K) = Some (Inr (sg, pos'))"
    from sign_Inr_attempt [OF sg, folded defs] obtain i k where
      i: "i < 10" "nth_k rnd n qn pos i = Some (k, pos')"
      "\<not> attempt_fails pn qn gn xn (BN m) k"
      "sg = setS (setR (new_DSASignature (key_size K)) (toBuffer (attempt_r pn qn gn k)))
                     (toBuffer (attempt_s pn qn gn xn (BN m) k))"
      unfolding defs(5) by blast
    have "BN (sig_r sg) = attempt_r pn qn gn k" "BN (sig_s sg) = attempt_s pn qn gn xn (BN m) k"
      unfolding i(4) by (rule signature_values)+
    with i(1,2,3) show "\<exists>i<10. \<exists>k. nth_k rnd n qn pos i = Some (k, pos')
                  \<and> \<not> attempt_fails pn qn gn xn (BN m) k
                  \<and> BN (sig_r sg) = attempt_r pn qn gn k
                  \<and> BN (sig_s sg) = attempt_s pn qn gn xn (BN m) k"
      by blast
  qed
  show "\<forall>i k p'. nth_k rnd n qn pos i = Some (k, p') \<longrightarrow> 1 \<le> k \<and> k \<le> qn - 1"
  proof (intro allI impI)
    fix i k p' assume "nth_k rnd n qn pos i = Some (k, p')"
    from nth_k_range [OF this] show "1 \<le> k \<and> k \<le> qn - 1" by arith
  qed
  show "\<forall>pos k pos'. sample_k rnd n qn pos = Some (k, pos') \<longleftrightarrow>
            (\<exists>j. k = draw rnd n pos j \<and> pos' = pos + (j + 1) * n \<and> 1 \<le> k \<and> k \<le> qn - 1
                \<and> (\<forall>i<j. \<not> (1 \<le> draw rnd n pos i \<and> draw rnd n pos i \<le> qn - 1)))"
    by (intro allI sample_k_iff)
  show "\<forall>k. 1 \<le> k \<and> k \<le> qn - 1 \<longrightarrow> (\<exists>!buf. length buf = n \<and> BN buf = k)"
  proof (intro allI impI)
    fix k assume "1 \<le> k \<and> k \<le> qn - 1"
    then have "k < qn" using chk(2) by arith
    with chk(5) have "k < 256 ^ n" unfolding defs(5) by (rule less_256_power_bitLength)
    then show "\<exists>!buf. length buf = n \<and> BN buf = k" by (rule unique_buffer)
  qed
qed


theorem sign_retry_budget_witness:
  "0 < BN (key_p K0) \<and> 0 < BN (key_q K0) \<and> 0 < BN (key_g K0) \<and> 0 < BN (key_x K0)
   \<and> bitLength (BN (key_q K0)) mod 8 = 0
   \<and> odd (BN (key_p K0)) \<and> 1 < BN (key_p K0) \<and> odd (BN (key_q K0))
   \<and> sign (\<lambda>i. 5) 0 (JBuffer [58]) (JDSAPrivateKey K0) = Some (Inl (Error ''Could not sign.''))"
proof -
  have v: "BN (key_p K0) = 263" "BN (key_q K0) = 131" "BN (key_g K0) = 4" "BN (key_x K0) = 7"
    "BN [58] = 58"
    by (simp_all add: K0_def BN_def)
  have chk: "0 < BN (key_p K0)" "0 < BN (key_q K0)" "0 < BN (key_g K0)" "0 < BN (key_x K0)"
    "bitLength (BN (key_q K0)) mod 8 = 0"
    by (simp_all add: v bitLength_131)
  have moduli: "odd (BN (key_p K0))" "1 < BN (key_p K0)" "odd (BN (key_q K0))"
    by (simp_all add: v)
  have n: "bitLength (BN (key_q K0)) div 8 = Suc 0" by (simp add: v bitLength_131)
  have all: "\<forall>i<10. \<exists>k p'. nth_k (\<lambda>i. 5) (bitLength (BN (key_q K0)) div 8) (BN (key_q K0)) 0 i
                  = Some (k, p')
              \<and> attempt_fails (BN (key_p K0)) (BN (key_q K0)) (BN (key_g K0)) (BN (key_x K0))
                  (BN [58]) k"
  proof (intro allI impI)
    fix i :: nat assume "i < 10"
    show "\<exists>k p'. nth_k (\<lambda>i. 5) (bitLength (BN (key_q K0)) div 8) (BN (key_q K0)) 0 i
                  = Some (k, p')
              \<and> attempt_fails (BN (key_p K0)) (BN (key_q K0)) (BN (key_g K0)) (BN (key_x K0))
                  (BN [58]) k"
      by (intro exI [of _ 5] exI [of _ "Suc i"])
         (simp add: v bitLength_131 nth_k_const K0_attempt_fails)
  qed
  from sign_retry_budget [OF refl refl refl refl refl chk moduli, of "\<lambda>i. 5" 0 "[58]"] all
  have "sign (\<lambda>i. 5) 0 (JBuffer [58]) (JDSAPrivateKey K0) = Some (Inl (Error ''Could not sign.''))"
    by blast
  with chk moduli show ?thesis by blast
qed

subsection \<open>The width of a signature\<close>

text \<open>
  C7. Every DSA signature produced by \<open>sign\<close> carries \<open>r\<close> and \<open>s\<close> each exactly
  \<open>\<lceil>N/8\<rceil>\<close> bytes long, left-padded with zero bytes, where \<open>N\<close> is the bit length of
  \<open>q\<close>. For the JavaScript \<open>sign\<close>: the fields of the signature are the big-endian
  bytes of the values \<open>r\<close> and \<open>s\<close> with which the loop was left, behind as many zero
  bytes as it takes to reach \<open>\<lceil>N/8\<rceil>\<close> bytes. For the native \<open>bcrypto_dsa_sign\<close>, which
  converts with \<open>bcrypto_dsa_sig2rs\<close>: the same of the values \<open>r\<close> and \<open>s\<close> that
  \<open>DSA_do_sign\<close> returns.
\<close>

theorem signature_fixed_width:
  "(sign rnd pos (JBuffer z) (JDSAPrivateKey K) = Some (Inr (sg, pos')) \<longrightarrow>
      (\<exists>a rv sv.
          sign_loop rnd (bitLength (BN (key_q K)) div 8) (BN (key_p K)) (BN (key_q K))
            (BN (key_g K)) (BN (key_x K)) z 10 0 0 pos = Some (Inr (a, rv, sv, pos'))
          \<and> a \<noteq> 0
          \<and> length (sig_r sg) = (bitLength (BN (key_q K)) + 7) div 8
          \<and> length (sig_s sg) = (bitLength (BN (key_q K)) + 7) div 8
          \<and> sig_r sg = replicate ((bitLength (BN (key_q K)) + 7) div 8 - length (toBuffer rv)) 0
                          @ toBuffer rv
          \<and> sig_s sg = replicate ((bitLength (BN (key_q K)) + 7) div 8 - length (toBuffer sv)) 0
                          @ toBuffer sv
          \<and> BN (sig_r sg) = rv \<and> BN (sig_s sg) = sv))
   \<and> (bcrypto_dsa_sign have_openssl DSA_do_sign (Some m) (Some k) = Inr (Some (r, s)) \<longrightarrow>
      (\<exists>priv_d rv sv.
          bcrypto_dsa_key2priv (Some k) = Some priv_d
          \<and> DSA_do_sign m priv_d = Some (rv, sv)
          \<and> length r = (bcrypto_count_bits (qd k) + 7) div 8
          \<and> length s = (bcrypto_count_bits (qd k) + 7) div 8
          \<and> r = replicate ((bcrypto_count_bits (qd k) + 7) div 8 - length (toArrayLike rv)) 0
                  @ toArrayLike rv
          \<and> s = replicate ((bcrypto_count_bits (qd k) + 7) div 8 - length (toArrayLike sv)) 0
                  @ toArrayLike sv
          \<and> BN r = rv \<and> BN s = sv))"
proof (intro conjI impI)
  let ?p = "BN (key_p K)" and ?q = "BN (key_q K)" and ?g = "BN (key_g K)" and ?x = "BN (key_x K)"
  let ?len = "(bitLength ?q + 7) div 8"
  assume sg: "sign rnd pos (JBuffer z) (JDSAPrivateKey K) = Some (Inr (sg, pos'))"
  note chk = sign_Inr_checks [OF sg]
  from sign_Inr_loop [OF sg] obtain a rv sv where
    loop: "sign_loop rnd (bitLength ?q div 8) ?p ?q ?g ?x z 10 0 0 pos = Some (Inr (a, rv, sv, pos'))"
    and a: "a \<noteq> 0"
    and sgeq: "sg = setS (setR (new_DSASignature (key_size K)) (toBuffer rv)) (toBuffer sv)"
    by blast
  from sign_loop_success [OF loop a] obtain kk where
    "rv = attempt_r ?p ?q ?g kk" "sv = attempt_s ?p ?q ?g ?x (BN z) kk" by blast
  then have "rv < ?q" "sv < ?q" using chk by (simp_all add: attempt_r_def attempt_s_def)
  then have "BN_num_bytes rv \<le> ?len" "BN_num_bytes sv \<le> ?len"
    using BN_num_bytes_mono [of rv ?q] BN_num_bytes_mono [of sv ?q]
    by (simp_all add: BN_num_bytes_def)
  then have le: "length (toBuffer rv) \<le> ?len" "length (toBuffer sv) \<le> ?len"
    by (simp_all add: toBuffer_def length_toArrayLike)
  have r: "sig_r sg = replicate (?len - length (toBuffer rv)) 0 @ toBuffer rv"
    and s: "sig_s sg = replicate (?len - length (toBuffer sv)) 0 @ toBuffer sv"
    by (simp_all add: sgeq setR_def setS_def new_DSASignature_def key_size_eq leftPad_def)
  have lr: "length (sig_r sg) = ?len" unfolding r using le(1) by simp
  have ls: "length (sig_s sg) = ?len" unfolding s using le(2) by simp
  have vr: "BN (sig_r sg) = rv" and vs: "BN (sig_s sg) = sv"
    unfolding sgeq by (rule signature_values)+
  have "sign_loop rnd (bitLength ?q div 8) ?p ?q ?g ?x z 10 0 0 pos = Some (Inr (a, rv, sv, pos'))
          \<and> a \<noteq> 0
          \<and> length (sig_r sg) = ?len
          \<and> length (sig_s sg) = ?len
          \<and> sig_r sg = replicate (?len - length (toBuffer rv)) 0 @ toBuffer rv
          \<and> sig_s sg = replicate (?len - length (toBuffer sv)) 0 @ toBuffer sv
          \<and> BN (sig_r sg) = rv \<and> BN (sig_s sg) = sv"
    using loop a lr ls r s vr vs by (intro conjI)
  then show "\<exists>a rv sv.
          sign_loop rnd (bitLength ?q div 8) ?p ?q ?g ?x z 10 0 0 pos = Some (Inr (a, rv, sv, pos'))
          \<and> a \<noteq> 0
          \<and> length (sig_r sg) = ?len
          \<and> length (sig_s sg) = ?len
          \<and> sig_r sg = replicate (?len - length (toBuffer rv)) 0 @ toBuffer rv
          \<and> sig_s sg = replicate (?len - length (toBuffer sv)) 0 @ toBuffer sv
          \<and> BN (sig_r sg) = rv \<and> BN (sig_s sg) = sv"
    by (intro exI)
next
  let ?len = "(bcrypto_count_bits (qd k) + 7) div 8"
  assume a: "bcrypto_dsa_sign have_openssl DSA_do_sign (Some m) (Some k) = Inr (Some (r, s))"
  then obtain priv_d sig_d where pd: "bcrypto_dsa_key2priv (Some k) = Some priv_d"
    and ds: "DSA_do_sign m priv_d = Some sig_d"
    and rs: "bcrypto_dsa_sig2rs priv_d sig_d = Inr (Some (r, s))"
    by (auto simp: bcrypto_dsa_sign_def split: option.splits if_splits sum.splits prod.splits)
  obtain rv sv where sd: "sig_d = (rv, sv)" by (cases sig_d)
  from pd have q: "dsa_q priv_d = BN_bin2bn (qd k)"
    by (auto simp: bcrypto_dsa_key2priv_def bcrypto_dsa_key2dsa_def)
  have len: "(bitLength (dsa_q priv_d) + 7) div 8 = ?len"
    by (simp add: q bcrypto_count_bits_eq)
  from rs have pads: "BN_bn2binpad rv ?len = Some r" "BN_bn2binpad sv ?len = Some s"
    by (auto simp: bcrypto_dsa_sig2rs_def Let_def len sd split: if_splits option.splits)
  have er: "r = replicate (?len - length (toArrayLike rv)) 0 @ toArrayLike rv"
    using BN_bn2binpad_Some(3) [OF pads(1)] by (simp add: leftPad_def)
  have es: "s = replicate (?len - length (toArrayLike sv)) 0 @ toArrayLike sv"
    using BN_bn2binpad_Some(3) [OF pads(2)] by (simp add: leftPad_def)
  have "bcrypto_dsa_key2priv (Some k) = Some priv_d
          \<and> DSA_do_sign m priv_d = Some (rv, sv)
          \<and> length r = ?len
          \<and> length s = ?len
          \<and> r = replicate (?len - length (toArrayLike rv)) 0 @ toArrayLike rv
          \<and> s = replicate (?len - length (toArrayLike sv)) 0 @ toArrayLike sv
          \<and> BN r = rv \<and> BN s = sv"
    using pd ds [unfolded sd] BN_bn2binpad_Some(1,2) [OF pads(1)]
      BN_bn2binpad_Some(1,2) [OF pads(2)] er es
    by (intro conjI)
  then show "\<exists>priv_d rv sv.
          bcrypto_dsa_key2priv (Some k) = Some priv_d
          \<and> DSA_do_sign m priv_d = Some (rv, sv)
          \<and> length r = ?len
          \<and> length s = ?len
          \<and> r = replicate (?len - length (toArrayLike rv)) 0 @ toArrayLike rv
          \<and> s = replicate (?len - length (toArrayLike sv)) 0 @ toArrayLike sv
          \<and> BN r = rv \<and> BN s = sv"
    by (intro exI)
qed

theorem signature_fixed_width_witness:
  "sign (\<lambda>i. 5) 0 (JBuffer [66]) (JDSAPrivateKey K0)
     = Some (Inr (\<lparr> sig_size = 1, sig_r = [104], sig_s = [54] \<rparr>, 1))
   \<and> length (sig_r \<lparr> sig_size = 1, sig_r = [104], sig_s = [54] \<rparr>)
       = (bitLength (BN (key_q K0)) + 7) div 8
   \<and> sign_loop (\<lambda>i. 5) (Suc 0) 263 131 4 7 [66] 10 0 0 0 = Some (Inr (10, 104, 54, Suc 0))
   \<and> bcrypto_dsa_sign True (\<lambda>m d. Some (2, 3)) (Some [1]) (Some priv0)
       = Inr (Some (replicate 19 0 @ [2], replicate 19 0 @ [3]))
   \<and> length (replicate 19 (0::byte) @ [2]) = (bcrypto_count_bits (qd priv0) + 7) div 8
   \<and> BN (replicate 19 (0::byte) @ [2]) = 2
   \<and> BN (replicate 19 (0::byte) @ [3]) = 3"
proof -
  note t = signature_fixed_width [of "\<lambda>i. 5" 0 "[66]" K0
      "\<lparr> sig_size = 1, sig_r = [104], sig_s = [54] \<rparr>" 1
      True "\<lambda>m d. Some (2, 3)" "[1]" priv0 "replicate 19 0 @ [2]" "replicate 19 0 @ [3]"]
  from t [THEN conjunct1, THEN mp, OF sign_K0]
  have js: "length (sig_r \<lparr> sig_size = 1, sig_r = [104], sig_s = [54] \<rparr>)
       = (bitLength (BN (key_q K0)) + 7) div 8"
    by (elim exE conjE)
  from t [THEN conjunct2, THEN mp, OF native_sign_priv0]
  have c: "length (replicate 19 (0::byte) @ [2]) = (bcrypto_count_bits (qd priv0) + 7) div 8
      \<and> BN (replicate 19 (0::byte) @ [2]) = 2 \<and> BN (replicate 19 (0::byte) @ [3]) = 3"
    by (elim exE conjE) simp
  from sign_K0 native_sign_priv0 js c loop_K0 show ?thesis by (intro conjI) (elim conjE, assumption)+
qed

section \<open>Parameter generation\<close>

text \<open>
  C3. Every \<open>DSAParams\<close> value \<open>(p, q, g)\<close> returned by parameter generation satisfies:
  \<open>q\<close> divides \<open>p - 1\<close>, \<open>g^q mod p = 1\<close>, \<open>g \<noteq> 1\<close>, \<open>bitLength(p) = L\<close> and
  \<open>bitLength(q) = N\<close>. The value is one returned by \<open>generate(L, N)\<close>, or by its body
  after the guards at any sizes that are positive multiples of 8, so that the statement
  can be run at sizes below those \<open>generate\<close> admits. That \<open>q\<close> divides \<open>p - 1\<close>, that
  \<open>g \<noteq> 1\<close> and the bit length of \<open>q\<close> hold whatever the primality test answers; the
  order of \<open>g\<close> and the bit length of \<open>p\<close> hold when the test \<open>probablyPrime\<close> accepts
  primes only.
\<close>

theorem generate_params_invariants:
  fixes L N :: nat
  assumes ret:
    "generate probablyPrime rnd pos (int L) (int N) = Some (Inr (params, pos'))
       \<or> (0 < N \<and> N mod 8 = 0 \<and> 0 < L \<and> L mod 8 = 0
            \<and> generate_body probablyPrime rnd pos L N = Some (Inr (params, pos')))"
  shows "BN (key_q params) dvd BN (key_p params) - 1
           \<and> BN (key_g params) \<noteq> 1
           \<and> bitLength (BN (key_q params)) = N \<and> key_N params = N
           \<and> ((\<forall>n rounds. probablyPrime n rounds \<longrightarrow> is_prime n) \<longrightarrow>
                 BN (key_g params) ^ BN (key_q params) mod BN (key_p params) = 1
                   \<and> bitLength (BN (key_p params)) = L \<and> key_L params = L)"
proof -
  have body: "0 < N \<and> N mod 8 = 0 \<and> 0 < L \<and> L mod 8 = 0
                \<and> generate_body probablyPrime rnd pos L N = Some (Inr (params, pos'))"
    using ret
  proof
    assume "generate probablyPrime rnd pos (int L) (int N) = Some (Inr (params, pos'))"
    from generate_Inr [OF this] show ?thesis by auto
  qed
  then have sizes: "0 < N" "N mod 8 = 0" "0 < L" "L mod 8 = 0"
    and gen: "generate_body probablyPrime rnd pos L N = Some (Inr (params, pos'))" by simp_all
  from generate_body_result [OF sizes(1,2,4) gen] obtain pn qn gn where
    fields: "key_p params = toBuffer pn" "key_q params = toBuffer qn" "key_g params = toBuffer gn"
    and pp: "probablyPrime pn 64" and pq: "probablyPrime qn 64"
    and bq: "bitLength qn = N" and dv: "qn dvd pn - 1"
    and bl: "L \<le> bitLength pn" and le: "pn \<le> 2 ^ L"
    and g: "find_g 2 ((pn - 1) div qn) pn = Some (Inr gn)"
    by (elim exE conjE)
  have vals: "BN (key_p params) = pn" "BN (key_q params) = qn" "BN (key_g params) = gn"
    by (simp_all add: fields toBuffer_def)
  have g1: "gn \<noteq> 1" using find_g_result [OF g] by auto
  have sound: "gn ^ qn mod pn = 1 \<and> bitLength pn = L"
    if s: "\<forall>n rounds. probablyPrime n rounds \<longrightarrow> is_prime n"
  proof -
    have p: "is_prime pn" and q: "is_prime qn" using s pp pq by blast+
    have L1: "1 < L" using sizes(3,4) by (cases "L = 1") auto
    have "pn \<noteq> 2 ^ L" using p L1 by (rule is_prime_not_power2)
    with le have "pn < 2 ^ L" by simp
    then have "bitLength pn \<le> L" by (simp add: bitLength_le)
    with bl have "bitLength pn = L" by simp
    with generator_order [OF p q dv g] show ?thesis by simp
  qed
  show ?thesis
    using dv g1 bq sound by (simp add: vals key_N_def key_L_def countLeft_def)
qed

theorem generate_params_invariants_witness:
  "generate_body probablyPrime0 rnd0 0 16 8 = Some (Inr (params0, 3))
     \<and> BN (key_q params0) dvd BN (key_p params0) - 1
     \<and> BN (key_g params0) \<noteq> 1
     \<and> BN (key_g params0) ^ BN (key_q params0) mod BN (key_p params0) = 1
     \<and> key_L params0 = 16 \<and> key_N params0 = 8"
  using generate_params_invariants [of probablyPrime0 rnd0 0 16 8 params0 3]
    generate_body0 probablyPrime0_sound
  by simp

section \<open>Properties of the native engine\<close>

text \<open>
  C10. The native engine rejects message lengths outside [1, 64] bytes at its public
  interface: for a message of length 0 or of more than 64 bytes, \<open>bcrypto_dsa_sign\<close>
  fails (returns \<open>false\<close>) and \<open>bcrypto_dsa_verify\<close> returns \<open>false\<close>, whatever the key,
  the signature, the build and the behaviour of OpenSSL.
\<close>

theorem native_rejects_message_length:
  assumes "length m = 0 \<or> length m > 64"
  shows "bcrypto_dsa_sign have_openssl DSA_do_sign (Some m) priv = Inr None
       \<and> bcrypto_dsa_verify have_openssl DSA_do_verify (Some m) r s pub = False"
  using assms by (auto simp: bcrypto_dsa_sign_def bcrypto_dsa_verify_def)

theorem native_rejects_message_length_witness:
  "length (replicate 65 (0::byte)) > 64
   \<and> bcrypto_dsa_sign True (\<lambda>m d. Some (1, 1)) (Some (replicate 65 0)) None = Inr None
   \<and> bcrypto_dsa_verify True (\<lambda>m sg d. 1) (Some (replicate 65 0)) (Some []) (Some []) None = False"
  using native_rejects_message_length [of "replicate 65 (0::byte)" True "\<lambda>m d. Some (1, 1)" None
      "\<lambda>m sg d. 1" "Some []" "Some []" None]
  by simp

end
